theory Spec2Isabelle
  imports Main
begin

section \<open>The blocking primitives the lock is composed of\<close>

text \<open>
  Both source files build the lock from \<^verbatim>\<open>sync.Mutex\<close> and \<^verbatim>\<open>sync.RWMutex\<close> of the
  Go standard library.  They are modelled by their documented contract, which is also the
  contract of the write gate and of the read/write gate in the specification: a call
  either returns, or blocks the caller, or is a fatal run-time error of the process.
  Neither primitive records an owner: any caller may release what any caller acquired.
  A call that blocks changes nothing.  In Go a new \<^verbatim>\<open>RLock\<close> also waits while a
  \<^verbatim>\<open>Lock\<close> call is waiting for the readers to leave; here it is let in, which only adds
  interleavings, and where a result says that a shared acquisition does not wait it also
  says that no other thread is at a call asking for the exclusive mode.
\<close>

datatype fatal =
    Unlock_of_unlocked_mutex
  | Unlock_of_unlocked_RWMutex
  | RUnlock_of_unlocked_RWMutex

datatype 'a outcome = Done 'a | Blocked | Fatal fatal

record Mutex =
  locked :: bool

record RWMutex =
  writer :: bool
  readers :: nat

definition Mutex_Lock :: "Mutex \<Rightarrow> Mutex outcome" where
  "Mutex_Lock x = (if locked x then Blocked else Done (x\<lparr>locked := True\<rparr>))"

definition Mutex_Unlock :: "Mutex \<Rightarrow> Mutex outcome" where
  "Mutex_Unlock x =
     (if locked x then Done (x\<lparr>locked := False\<rparr>) else Fatal Unlock_of_unlocked_mutex)"

definition RWMutex_Lock :: "RWMutex \<Rightarrow> RWMutex outcome" where
  "RWMutex_Lock x =
     (if writer x \<or> 0 < readers x then Blocked else Done (x\<lparr>writer := True\<rparr>))"

definition RWMutex_Unlock :: "RWMutex \<Rightarrow> RWMutex outcome" where
  "RWMutex_Unlock x =
     (if writer x then Done (x\<lparr>writer := False\<rparr>) else Fatal Unlock_of_unlocked_RWMutex)"

definition RWMutex_RLock :: "RWMutex \<Rightarrow> RWMutex outcome" where
  "RWMutex_RLock x =
     (if writer x then Blocked else Done (x\<lparr>readers := Suc (readers x)\<rparr>))"

definition RWMutex_RUnlock :: "RWMutex \<Rightarrow> RWMutex outcome" where
  "RWMutex_RUnlock x =
     (if readers x = 0 then Fatal RUnlock_of_unlocked_RWMutex
      else Done (x\<lparr>readers := readers x - 1\<rparr>))"

section \<open>The lock\<close>

text \<open>
  The struct of the guarded source file has the fields \<open>w\<close>, \<open>r\<close> and \<open>g\<close>.  The struct
  of \<^verbatim>\<open>motex.go\<close> has \<open>w\<close> and \<open>r\<close> only; its methods are run on the same record and
  never reach \<open>g\<close> (lemma \<open>bare_keeps_g\<close> below).
\<close>

record Motex =
  w :: Mutex
  r :: RWMutex
  g :: Mutex

definition fresh :: Motex where
  "fresh = \<lparr>w = \<lparr>locked = False\<rparr>, r = \<lparr>writer = False, readers = 0\<rparr>,
            g = \<lparr>locked = False\<rparr>\<rparr>"

text \<open>One statement of a method body: a call of a primitive on one field.\<close>

datatype call =
    W_Lock | W_Unlock
  | R_Lock | R_Unlock | R_RLock | R_RUnlock
  | G_Lock | G_Unlock

fun exec :: "call \<Rightarrow> Motex \<Rightarrow> Motex outcome" where
  "exec W_Lock m = map_outcome (\<lambda>x. m\<lparr>w := x\<rparr>) (Mutex_Lock (w m))"
| "exec W_Unlock m = map_outcome (\<lambda>x. m\<lparr>w := x\<rparr>) (Mutex_Unlock (w m))"
| "exec R_Lock m = map_outcome (\<lambda>x. m\<lparr>r := x\<rparr>) (RWMutex_Lock (r m))"
| "exec R_Unlock m = map_outcome (\<lambda>x. m\<lparr>r := x\<rparr>) (RWMutex_Unlock (r m))"
| "exec R_RLock m = map_outcome (\<lambda>x. m\<lparr>r := x\<rparr>) (RWMutex_RLock (r m))"
| "exec R_RUnlock m = map_outcome (\<lambda>x. m\<lparr>r := x\<rparr>) (RWMutex_RUnlock (r m))"
| "exec G_Lock m = map_outcome (\<lambda>x. m\<lparr>g := x\<rparr>) (Mutex_Lock (g m))"
| "exec G_Unlock m = map_outcome (\<lambda>x. m\<lparr>g := x\<rparr>) (Mutex_Unlock (g m))"

datatype op = Lock | Unlock | Demote | Promote | RLock | RUnlock

datatype variant = Bare | Guarded

text \<open>
  The method bodies, statement by statement.  \<open>Bare\<close> is \<^verbatim>\<open>motex.go\<close>; \<open>Guarded\<close> is
  the source file whose \<open>Demote\<close> locks and whose \<open>Promote\<close> unlocks the mutex \<open>g\<close>.
\<close>

fun body :: "variant \<Rightarrow> op \<Rightarrow> call list" where
  "body v Lock = [W_Lock, R_Lock]"
| "body v Unlock = [R_Unlock, W_Unlock]"
| "body Bare Demote = [R_Unlock, R_RLock]"
| "body Guarded Demote = [R_Unlock, R_RLock, G_Lock]"
| "body Bare Promote = [R_RUnlock, R_Lock]"
| "body Guarded Promote = [R_RUnlock, R_Lock, G_Unlock]"
| "body v RLock = [R_RLock]"
| "body v RUnlock = [R_RUnlock]"

text \<open>
  Running statements in order on one caller.  The result is the list of the calls that
  returned, and how the run ended: a call that blocks or is fatal ends it.
\<close>

fun run :: "call list \<Rightarrow> Motex \<Rightarrow> call list \<times> Motex outcome" where
  "run [] m = ([], Done m)"
| "run (c # cs) m =
     (case exec c m of
        Done m' \<Rightarrow> (case run cs m' of (tr, res) \<Rightarrow> (c # tr, res))
      | Blocked \<Rightarrow> ([], Blocked)
      | Fatal e \<Rightarrow> ([], Fatal e))"

text \<open>
  A sequence of method calls by one caller with nobody else around.  \<open>Blocks i\<close> and
  \<open>Faults i e\<close> name the position of the call at which the sequence stopped.
\<close>

datatype verdict = Completes Motex | Blocks nat | Faults nat fatal

fun play_from :: "nat \<Rightarrow> variant \<Rightarrow> op list \<Rightarrow> Motex \<Rightarrow> call list \<times> verdict" where
  "play_from i v [] m = ([], Completes m)"
| "play_from i v (x # xs) m =
     (case run (body v x) m of
        (tr, Done m') \<Rightarrow> (case play_from (Suc i) v xs m' of (tr', res) \<Rightarrow> (tr @ tr', res))
      | (tr, Blocked) \<Rightarrow> (tr, Blocks i)
      | (tr, Fatal e) \<Rightarrow> (tr, Faults i e))"

definition play :: "variant \<Rightarrow> op list \<Rightarrow> call list \<times> verdict" where
  "play v xs = play_from 0 v xs fresh"

section \<open>The state machine of the specification\<close>

text \<open>
  The logical state of one caller as the specification's operation table has it: the
  writer phase, and the number of shared acquisitions the caller obtained through
  \<open>RLock\<close> and has not yet released.  A pure reader is a caller in phase \<open>Unlocked\<close>
  with a positive count.  \<open>pre\<close> is the precondition column of the table and \<open>post\<close>
  its postcondition column.
\<close>

datatype phase = Unlocked | WriteLocked | WriteLockedDemoted

fun pre :: "op \<Rightarrow> phase \<Rightarrow> nat \<Rightarrow> bool" where
  "pre Lock p n = True"
| "pre Unlock p n = (p = WriteLocked)"
| "pre Demote p n = (p = WriteLocked)"
| "pre Promote p n = (p = WriteLockedDemoted)"
| "pre RLock p n = True"
| "pre RUnlock p n = (0 < n)"

fun post :: "op \<Rightarrow> phase \<Rightarrow> phase" where
  "post Lock p = WriteLocked"
| "post Unlock p = Unlocked"
| "post Demote p = WriteLockedDemoted"
| "post Promote p = WriteLocked"
| "post RLock p = p"
| "post RUnlock p = p"

fun post_count :: "op \<Rightarrow> nat \<Rightarrow> nat" where
  "post_count RLock n = Suc n"
| "post_count RUnlock n = n - 1"
| "post_count x n = n"

fun legal_from :: "phase \<Rightarrow> nat \<Rightarrow> op list \<Rightarrow> bool" where
  "legal_from p n [] = True"
| "legal_from p n (x # xs) = (pre x p n \<and> legal_from (post x p) (post_count x n) xs)"

definition legal :: "op list \<Rightarrow> bool" where
  "legal xs = legal_from Unlocked 0 xs"

section \<open>The operation table of the specification\<close>

text \<open>
  \<open>spec_effect\<close> is the effect column of the operation table, written with the names of
  the calls: the actions on the write gate \<open>w\<close> and on the read/write gate \<open>r\<close>, in the
  table's order.  \<open>on_gates\<close> keeps the calls on the two gates of a list of calls and
  drops the calls on the guard mutex \<open>g\<close>.
\<close>

fun spec_effect :: "op \<Rightarrow> call list" where
  "spec_effect Lock = [W_Lock, R_Lock]"
| "spec_effect Unlock = [R_Unlock, W_Unlock]"
| "spec_effect Demote = [R_Unlock, R_RLock]"
| "spec_effect Promote = [R_RUnlock, R_Lock]"
| "spec_effect RLock = [R_RLock]"
| "spec_effect RUnlock = [R_RUnlock]"

fun on_guard :: "call \<Rightarrow> bool" where
  "on_guard G_Lock = True"
| "on_guard G_Unlock = True"
| "on_guard c = False"

definition on_gates :: "call list \<Rightarrow> call list" where
  "on_gates cs = filter (\<lambda>c. \<not> on_guard c) cs"

text \<open>
  \<open>ready v x m\<close>: the lock state \<open>m\<close> is one in which the caller of \<open>x\<close> is in the
  state the table requires and the gates that \<open>x\<close> acquires are free, so that \<open>x\<close> does
  not have to wait.  For \<open>Promote\<close> this means that the caller's own shared slot is the
  only one.  \<open>landed v x m m'\<close> reads the lock state \<open>m'\<close> after \<open>x\<close> against the
  state \<open>m\<close> before it.
\<close>

fun ready :: "variant \<Rightarrow> op \<Rightarrow> Motex \<Rightarrow> bool" where
  "ready v Lock m = (\<not> locked (w m) \<and> \<not> writer (r m) \<and> readers (r m) = 0)"
| "ready v Unlock m = (locked (w m) \<and> writer (r m))"
| "ready v Demote m = (locked (w m) \<and> writer (r m) \<and> (v = Bare \<or> \<not> locked (g m)))"
| "ready v Promote m =
     (locked (w m) \<and> \<not> writer (r m) \<and> readers (r m) = 1 \<and> (v = Bare \<or> locked (g m)))"
| "ready v RLock m = (\<not> writer (r m))"
| "ready v RUnlock m = (0 < readers (r m))"

fun landed :: "variant \<Rightarrow> op \<Rightarrow> Motex \<Rightarrow> Motex \<Rightarrow> bool" where
  "landed v Lock m m' =
     (locked (w m') \<and> writer (r m') \<and> readers (r m') = 0 \<and> g m' = g m)"
| "landed v Unlock m m' =
     (\<not> locked (w m') \<and> \<not> writer (r m') \<and> readers (r m') = readers (r m) \<and> g m' = g m)"
| "landed v Demote m m' =
     (w m' = w m \<and> \<not> writer (r m') \<and> readers (r m') = Suc (readers (r m))
      \<and> (case v of Bare \<Rightarrow> g m' = g m | Guarded \<Rightarrow> locked (g m')))"
| "landed v Promote m m' =
     (w m' = w m \<and> writer (r m') \<and> readers (r m') = 0
      \<and> (case v of Bare \<Rightarrow> g m' = g m | Guarded \<Rightarrow> \<not> locked (g m')))"
| "landed v RLock m m' =
     (w m' = w m \<and> g m' = g m \<and> writer (r m') = writer (r m)
      \<and> readers (r m') = Suc (readers (r m)))"
| "landed v RUnlock m m' =
     (w m' = w m \<and> g m' = g m \<and> writer (r m') = writer (r m)
      \<and> Suc (readers (r m')) = readers (r m))"

text \<open>
  \<open>alone v p n m\<close>: the lock state \<open>m\<close> as it is when a single caller, in phase \<open>p\<close>
  with \<open>n\<close> shared acquisitions of its own, is the only user of the lock.  \<open>agree\<close>
  compares how the two source files end a sequence: both complete with the same gates, or
  both block at the same call.
\<close>

fun alone :: "variant \<Rightarrow> phase \<Rightarrow> nat \<Rightarrow> Motex \<Rightarrow> bool" where
  "alone v Unlocked n m =
     (\<not> locked (w m) \<and> \<not> writer (r m) \<and> readers (r m) = n \<and> \<not> locked (g m))"
| "alone v WriteLocked n m =
     (locked (w m) \<and> writer (r m) \<and> readers (r m) = 0 \<and> n = 0 \<and> \<not> locked (g m))"
| "alone v WriteLockedDemoted n m =
     (locked (w m) \<and> \<not> writer (r m) \<and> readers (r m) = Suc n \<and> locked (g m) = (v = Guarded))"

fun agree :: "verdict \<Rightarrow> verdict \<Rightarrow> bool" where
  "agree (Completes a) (Completes b) = (w a = w b \<and> r a = r b)"
| "agree (Blocks i) (Blocks j) = (i = j)"
| "agree a b = False"

text \<open>
  \<open>phase_after\<close> and \<open>count_after\<close> give the caller's logical state after a sequence
  of calls.  \<open>detected x p n\<close> marks the calls that violate their precondition in the
  logical state \<open>(p, n)\<close> and that the primitives catch when the caller is the only
  user of the lock: \<open>Unlock\<close> and \<open>Demote\<close> by a caller that is not write-locked,
  and \<open>Promote\<close> and \<open>RUnlock\<close> by a caller that is not demoted and holds no shared
  acquisition of its own.  \<open>complaint\<close> is the fatal error they end in.
\<close>

fun phase_after :: "phase \<Rightarrow> op list \<Rightarrow> phase" where
  "phase_after p [] = p"
| "phase_after p (x # xs) = phase_after (post x p) xs"

fun count_after :: "nat \<Rightarrow> op list \<Rightarrow> nat" where
  "count_after n [] = n"
| "count_after n (x # xs) = count_after (post_count x n) xs"

fun detected :: "op \<Rightarrow> phase \<Rightarrow> nat \<Rightarrow> bool" where
  "detected Unlock p n = (p \<noteq> WriteLocked)"
| "detected Demote p n = (p \<noteq> WriteLocked)"
| "detected Promote p n = (p \<noteq> WriteLockedDemoted \<and> n = 0)"
| "detected RUnlock p n = (p \<noteq> WriteLockedDemoted \<and> n = 0)"
| "detected Lock p n = False"
| "detected RLock p n = False"

fun complaint :: "op \<Rightarrow> fatal" where
  "complaint Unlock = Unlock_of_unlocked_RWMutex"
| "complaint Demote = Unlock_of_unlocked_RWMutex"
| "complaint x = RUnlock_of_unlocked_RWMutex"

section \<open>Threads\<close>

text \<open>
  Several threads share one lock and one integer variable (\<open>state\<close> in the test file).
  A thread runs a program: method calls on the lock, reads of the shared variable into
  its local \<open>old\<close>, and writes of \<open>old + 1\<close> to it.  A method call is not atomic: the
  thread enters the method, executes the calls of its body one at a time, and returns;
  other threads may run between any two of these steps.  \<open>Run x dn rest\<close> is a thread
  inside method \<open>x\<close> that has executed the calls \<open>dn\<close> of its body and has \<open>rest\<close> to go.

  \<open>held\<close> is the thread's own account of what it has acquired and not yet released,
  kept by \<open>gain\<close> at each call that returns; the primitives themselves record no owner.
  \<open>ph\<close> and \<open>shared\<close> are the caller's logical state of the operation table, changed
  when a method returns.
\<close>

record holding =
  has_w :: bool
  has_x :: bool
  slots :: nat
  has_g :: bool

definition nothing :: holding where
  "nothing = \<lparr>has_w = False, has_x = False, slots = 0, has_g = False\<rparr>"

fun gain :: "call \<Rightarrow> holding \<Rightarrow> holding" where
  "gain W_Lock h = h\<lparr>has_w := True\<rparr>"
| "gain W_Unlock h = h\<lparr>has_w := False\<rparr>"
| "gain R_Lock h = h\<lparr>has_x := True\<rparr>"
| "gain R_Unlock h = h\<lparr>has_x := False\<rparr>"
| "gain R_RLock h = h\<lparr>slots := Suc (slots h)\<rparr>"
| "gain R_RUnlock h = h\<lparr>slots := slots h - 1\<rparr>"
| "gain G_Lock h = h\<lparr>has_g := True\<rparr>"
| "gain G_Unlock h = h\<lparr>has_g := False\<rparr>"

datatype instr = Call op | Read | Write

datatype activity = Idle | Run op "call list" "call list"

record thread =
  ph :: phase
  shared :: nat
  act :: activity
  held :: holding
  todo :: "instr list"
  old :: int

record system =
  lock :: Motex
  threads :: "thread list"
  state :: int

text \<open>
  One step of thread \<open>t\<close>.  A thread whose next call blocks does not move (\<open>Waits\<close>);
  a fatal error of a primitive ends the process (\<open>Crashed\<close>).  Only legal calls are made:
  a thread about to call a method whose precondition does not hold in its logical state
  does not take that step (\<open>Illegal\<close>).
\<close>

datatype 'a move = Moved 'a | Waits | Crashed fatal | Illegal | Halted

definition put :: "system \<Rightarrow> nat \<Rightarrow> thread \<Rightarrow> system" where
  "put s t th = s\<lparr>threads := (threads s)[t := th]\<rparr>"

fun thread_step :: "variant \<Rightarrow> system \<Rightarrow> nat \<Rightarrow> thread \<Rightarrow> system move" where
  "thread_step v s t th =
     (case act th of
        Run x dn [] \<Rightarrow>
          Moved (put s t (th\<lparr>ph := post x (ph th), shared := post_count x (shared th),
                             act := Idle\<rparr>))
      | Run x dn (c # cs) \<Rightarrow>
          (case exec c (lock s) of
             Done m' \<Rightarrow>
               Moved (put (s\<lparr>lock := m'\<rparr>) t
                        (th\<lparr>act := Run x (dn @ [c]) cs, held := gain c (held th)\<rparr>))
           | Blocked \<Rightarrow> Waits
           | Fatal e \<Rightarrow> Crashed e)
      | Idle \<Rightarrow>
          (case todo th of
             [] \<Rightarrow> Halted
           | Call x # rest \<Rightarrow>
               if pre x (ph th) (shared th)
               then Moved (put s t (th\<lparr>act := Run x [] (body v x), todo := rest\<rparr>))
               else Illegal
           | Read # rest \<Rightarrow> Moved (put s t (th\<lparr>old := state s, todo := rest\<rparr>))
           | Write # rest \<Rightarrow> Moved (put (s\<lparr>state := old th + 1\<rparr>) t (th\<lparr>todo := rest\<rparr>))))"

definition step :: "variant \<Rightarrow> nat \<Rightarrow> system \<Rightarrow> system move" where
  "step v t s = (if t < length (threads s) then thread_step v s t (threads s ! t) else Halted)"

text \<open>
  An interleaving is a list of thread numbers: \<open>sched v ts s\<close> lets the threads take
  one step each in the order \<open>ts\<close>, and is \<open>Moved s'\<close> when every one of these steps
  could be taken.  The states reached from \<open>start ps\<close> by some interleaving are the
  reachable states of the threads with programs \<open>ps\<close>.
\<close>

fun sched :: "variant \<Rightarrow> nat list \<Rightarrow> system \<Rightarrow> system move" where
  "sched v [] s = Moved s"
| "sched v (t # ts) s =
     (case step v t s of
        Moved s' \<Rightarrow> sched v ts s'
      | Waits \<Rightarrow> Waits
      | Crashed e \<Rightarrow> Crashed e
      | Illegal \<Rightarrow> Illegal
      | Halted \<Rightarrow> Halted)"

definition spawn :: "instr list \<Rightarrow> thread" where
  "spawn p = \<lparr>ph = Unlocked, shared = 0, act = Idle, held = nothing, todo = p, old = 0\<rparr>"

definition start :: "instr list list \<Rightarrow> system" where
  "start ps = \<lparr>lock = fresh, threads = map spawn ps, state = 0\<rparr>"

text \<open>
  \<open>demotedIncrement\<close> of the test file: \<^verbatim>\<open>mo.Lock(); defer mo.Unlock(); mo.Demote();
  old := state; mo.Promote(); state = old + 1\<close>.
\<close>

definition demotedIncrement :: "instr list" where
  "demotedIncrement = [Call Lock, Call Demote, Read, Call Promote, Write, Call Unlock]"

definition finished :: "system \<Rightarrow> bool" where
  "finished s = list_all (\<lambda>th. act th = Idle \<and> todo th = []) (threads s)"

section \<open>What the threads hold\<close>

text \<open>
  \<open>base\<close> gives what a caller holds between two method calls, by its logical state;
  \<open>holds\<close> follows the calls already executed of the method in progress.  The thread
  invariant \<open>tinv\<close> says that the account \<open>held\<close> agrees with it, and that a method in
  progress was entered legally.
\<close>

fun base :: "variant \<Rightarrow> phase \<Rightarrow> nat \<Rightarrow> holding" where
  "base v Unlocked n = \<lparr>has_w = False, has_x = False, slots = n, has_g = False\<rparr>"
| "base v WriteLocked n = \<lparr>has_w = True, has_x = True, slots = n, has_g = False\<rparr>"
| "base v WriteLockedDemoted n =
     \<lparr>has_w = True, has_x = False, slots = Suc n, has_g = (v = Guarded)\<rparr>"

definition holds :: "variant \<Rightarrow> thread \<Rightarrow> holding" where
  "holds v th =
     (case act th of
        Idle \<Rightarrow> base v (ph th) (shared th)
      | Run x dn rest \<Rightarrow> fold gain dn (base v (ph th) (shared th)))"

text \<open>
  \<open>consistent m H\<close> relates the lock state \<open>m\<close> to the accounts \<open>H\<close> of all threads:
  each gate is locked exactly when some thread holds it, at most one thread holds \<open>w\<close>,
  whoever holds \<open>r\<close> exclusively or holds \<open>g\<close> also holds \<open>w\<close>, the reader count of
  \<open>r\<close> is the number of shared slots held, and there is none while \<open>r\<close> is held
  exclusively.
\<close>

definition consistent :: "Motex \<Rightarrow> holding list \<Rightarrow> bool" where
  "consistent m H =
     ((locked (w m) = (\<exists>i<length H. has_w (H ! i)))
      \<and> (\<forall>i<length H. \<forall>j<length H. has_w (H ! i) \<and> has_w (H ! j) \<longrightarrow> i = j)
      \<and> (writer (r m) = (\<exists>i<length H. has_x (H ! i)))
      \<and> (\<forall>i<length H. has_x (H ! i) \<longrightarrow> has_w (H ! i))
      \<and> readers (r m) = sum_list (map slots H)
      \<and> (writer (r m) \<longrightarrow> readers (r m) = 0)
      \<and> (locked (g m) = (\<exists>i<length H. has_g (H ! i)))
      \<and> (\<forall>i<length H. has_g (H ! i) \<longrightarrow> has_w (H ! i)))"

text \<open>
  \<open>need c h\<close>: what a thread with account \<open>h\<close> must hold for its call \<open>c\<close> to keep
  the lock consistent with the accounts.  The remaining definitions view \<open>consistent\<close>
  from one thread \<open>t\<close>: what the other threads hold, and how the lock state fits it.
\<close>

fun need :: "call \<Rightarrow> holding \<Rightarrow> bool" where
  "need W_Lock h = True"
| "need W_Unlock h = (has_w h \<and> \<not> has_x h \<and> \<not> has_g h)"
| "need R_Lock h = has_w h"
| "need R_Unlock h = has_x h"
| "need R_RLock h = True"
| "need R_RUnlock h = (0 < slots h)"
| "need G_Lock h = has_w h"
| "need G_Unlock h = has_g h"

definition other :: "(holding \<Rightarrow> bool) \<Rightarrow> holding list \<Rightarrow> nat \<Rightarrow> bool" where
  "other P H t = (\<exists>i<length H. i \<noteq> t \<and> P (H ! i))"

definition other_slots :: "holding list \<Rightarrow> nat \<Rightarrow> nat" where
  "other_slots H t = sum_list (map slots (take t H)) + sum_list (map slots (drop (Suc t) H))"

definition others_ok :: "holding list \<Rightarrow> nat \<Rightarrow> bool" where
  "others_ok H t =
     ((\<forall>i<length H. \<forall>j<length H. i \<noteq> t \<and> j \<noteq> t \<and> has_w (H ! i) \<and> has_w (H ! j) \<longrightarrow> i = j)
      \<and> (\<forall>i<length H. i \<noteq> t \<longrightarrow> has_x (H ! i) \<longrightarrow> has_w (H ! i))
      \<and> (\<forall>i<length H. i \<noteq> t \<longrightarrow> has_g (H ! i) \<longrightarrow> has_w (H ! i)))"

definition fits :: "Motex \<Rightarrow> holding \<Rightarrow> bool \<Rightarrow> bool \<Rightarrow> bool \<Rightarrow> nat \<Rightarrow> bool" where
  "fits m h ow ox og n =
     ((locked (w m) = (has_w h \<or> ow)) \<and> (has_w h \<longrightarrow> \<not> ow)
      \<and> (writer (r m) = (has_x h \<or> ox)) \<and> (has_x h \<longrightarrow> has_w h)
      \<and> readers (r m) = slots h + n \<and> (writer (r m) \<longrightarrow> readers (r m) = 0)
      \<and> (locked (g m) = (has_g h \<or> og)) \<and> (has_g h \<longrightarrow> has_w h)
      \<and> (ox \<longrightarrow> ow) \<and> (og \<longrightarrow> ow))"

definition tinv :: "variant \<Rightarrow> thread \<Rightarrow> bool" where
  "tinv v th =
     (held th = holds v th
      \<and> (case act th of
            Idle \<Rightarrow> True
          | Run x dn rest \<Rightarrow>
              dn @ rest = body v x \<and> pre x (ph th) (shared th)
              \<and> (x = Lock \<and> dn \<noteq> [] \<longrightarrow> ph th = Unlocked)))"

definition Inv :: "variant \<Rightarrow> system \<Rightarrow> bool" where
  "Inv v s =
     (consistent (lock s) (map held (threads s))
      \<and> (\<forall>t<length (threads s). tinv v (threads s ! t)))"

text \<open>
  The window of a thread: from the entry of \<open>Demote\<close> to the return of \<open>Promote\<close>.
  \<open>releasing\<close> are the three methods that only give up or weaken what the caller holds.
\<close>

definition in_window :: "thread \<Rightarrow> bool" where
  "in_window th =
     (case act th of
        Run Demote dn rest \<Rightarrow> True
      | Run Promote dn rest \<Rightarrow> True
      | _ \<Rightarrow> ph th = WriteLockedDemoted)"

definition releasing :: "op \<Rightarrow> bool" where
  "releasing x = (x = Unlock \<or> x = RUnlock \<or> x = Demote)"

section \<open>The increment test\<close>

text \<open>
  A reader program calls \<open>RLock\<close> and \<open>RUnlock\<close> and reads the shared variable.
  \<open>pending\<close> counts the writes a thread still has to do; \<open>tally\<close> adds them to the
  shared variable.  \<open>inc_ok k th\<close> places a thread running \<open>demotedIncrement\<close> in its
  program, and says that the value it has read is still the current value \<open>k\<close> of the
  shared variable until it has written.
\<close>

definition reader_only :: "instr list \<Rightarrow> bool" where
  "reader_only p = list_all (\<lambda>i. i = Call RLock \<or> i = Call RUnlock \<or> i = Read) p"

definition pending :: "thread \<Rightarrow> nat" where
  "pending th = count_list (todo th) Write"

definition tally :: "system \<Rightarrow> int" where
  "tally s = state s + int (sum_list (map pending (threads s)))"

definition is_run :: "op \<Rightarrow> activity \<Rightarrow> bool" where
  "is_run x a = (case a of Idle \<Rightarrow> False | Run y dn rest \<Rightarrow> y = x)"

definition inc_ok :: "int \<Rightarrow> thread \<Rightarrow> bool" where
  "inc_ok k th =
     (shared th = 0
      \<and> ((todo th = [Call Lock, Call Demote, Read, Call Promote, Write, Call Unlock]
           \<and> act th = Idle \<and> ph th = Unlocked)
         \<or> (todo th = [Call Demote, Read, Call Promote, Write, Call Unlock]
             \<and> (is_run Lock (act th) \<and> ph th = Unlocked
                \<or> act th = Idle \<and> ph th = WriteLocked))
         \<or> (todo th = [Read, Call Promote, Write, Call Unlock]
             \<and> (is_run Demote (act th) \<and> ph th = WriteLocked
                \<or> act th = Idle \<and> ph th = WriteLockedDemoted))
         \<or> (todo th = [Call Promote, Write, Call Unlock]
             \<and> act th = Idle \<and> ph th = WriteLockedDemoted \<and> old th = k)
         \<or> (todo th = [Write, Call Unlock]
             \<and> (is_run Promote (act th) \<and> ph th = WriteLockedDemoted
                \<or> act th = Idle \<and> ph th = WriteLocked) \<and> old th = k)
         \<or> (todo th = [Call Unlock] \<and> act th = Idle \<and> ph th = WriteLocked)
         \<or> (todo th = []
             \<and> (is_run Unlock (act th) \<and> ph th = WriteLocked
                \<or> act th = Idle \<and> ph th = Unlocked))))"

definition reader_ok :: "thread \<Rightarrow> bool" where
  "reader_ok th =
     (reader_only (todo th) \<and> ph th = Unlocked
      \<and> (act th = Idle \<or> is_run RLock (act th) \<or> is_run RUnlock (act th)))"

definition role_ok :: "int \<Rightarrow> instr list \<Rightarrow> thread \<Rightarrow> bool" where
  "role_ok k p th = (if p = demotedIncrement then inc_ok k th else reader_ok th)"

definition CInv :: "variant \<Rightarrow> instr list list \<Rightarrow> system \<Rightarrow> bool" where
  "CInv v ps s =
     (Inv v s \<and> length (threads s) = length ps
      \<and> (\<forall>t<length ps. role_ok (state s) (ps ! t) (threads s ! t)))"

text \<open>
  \<open>work\<close> is the number of steps a thread still has to take to reach the end of
  its program: one to enter a method, one for each call of its body, one to return, and
  one for each read or write of the shared variable.
\<close>

fun cost :: "variant \<Rightarrow> instr \<Rightarrow> nat" where
  "cost v (Call x) = length (body v x) + 2"
| "cost v Read = 1"
| "cost v Write = 1"

definition work :: "variant \<Rightarrow> thread \<Rightarrow> nat" where
  "work v th =
     (case act th of Idle \<Rightarrow> 0 | Run x dn rest \<Rightarrow> Suc (length rest))
     + sum_list (map (cost v) (todo th))"

definition total_work :: "variant \<Rightarrow> system \<Rightarrow> nat" where
  "total_work v s = sum_list (map (work v) (threads s))"

section \<open>The guard mutex erased\<close>

text \<open>
  \<open>trace v ts s\<close> is the list of the calls on the primitives, each with the thread
  that made it, that return along the interleaving \<open>ts\<close> from \<open>s\<close>.  \<open>erase\<close> forgets
  the guard mutex: the state of \<open>g\<close>, who holds it, and the calls on it in the method
  bodies in progress.
\<close>

definition next_call :: "system \<Rightarrow> nat \<Rightarrow> call option" where
  "next_call s t =
     (if t < length (threads s)
      then (case act (threads s ! t) of
              Idle \<Rightarrow> None
            | Run x dn [] \<Rightarrow> None
            | Run x dn (c # cs) \<Rightarrow> Some c)
      else None)"

fun trace :: "variant \<Rightarrow> nat list \<Rightarrow> system \<Rightarrow> (nat \<times> call) list" where
  "trace v [] s = []"
| "trace v (t # ts) s =
     (case step v t s of
        Moved s' \<Rightarrow>
          (case next_call s t of
             Some c \<Rightarrow> (t, c) # trace v ts s'
           | None \<Rightarrow> trace v ts s')
      | Waits \<Rightarrow> []
      | Crashed e \<Rightarrow> []
      | Illegal \<Rightarrow> []
      | Halted \<Rightarrow> [])"

definition on_gates_of :: "(nat \<times> call) list \<Rightarrow> (nat \<times> call) list" where
  "on_gates_of es = filter (\<lambda>e. \<not> on_guard (snd e)) es"

definition erase_thread :: "thread \<Rightarrow> thread" where
  "erase_thread th =
     \<lparr>ph = ph th, shared = shared th,
      act = (case act th of
               Idle \<Rightarrow> Idle
             | Run x dn rest \<Rightarrow> Run x (on_gates dn) (on_gates rest)),
      held = (held th)\<lparr>has_g := False\<rparr>,
      todo = todo th, old = old th\<rparr>"

definition erase :: "system \<Rightarrow> system" where
  "erase s = s\<lparr>lock := (lock s)\<lparr>g := \<lparr>locked = False\<rparr>\<rparr>,
               threads := map erase_thread (threads s)\<rparr>"

section \<open>Basic facts\<close>

lemmas prim_defs =
  Mutex_Lock_def Mutex_Unlock_def RWMutex_Lock_def RWMutex_Unlock_def
  RWMutex_RLock_def RWMutex_RUnlock_def

section \<open>Misuse by a single caller\<close>

text \<open>
  Claim C4.  The sequence \<open>RLock; Promote\<close> violates the precondition of \<open>Promote\<close>
  (the caller is a plain reader, not a demoted writer), and the two gates of
  \<^verbatim>\<open>motex.go\<close> alone let it run to completion: no call is fatal and none blocks.  It
  leaves the read/write gate held exclusively with the write gate free.
\<close>

theorem bare_misses_Promote_after_RLock:
  "\<not> legal [RLock, Promote]
   \<and> play Bare [RLock, Promote] =
       ([R_RLock, R_RUnlock, R_Lock],
        Completes (fresh\<lparr>r := \<lparr>writer = True, readers = 0\<rparr>\<rparr>))"
  by (simp add: legal_def play_def fresh_def prim_defs)

text \<open>
  Claim C3.  \<open>Promote\<close> outside the demoted state: on a lock never locked, on a lock
  locked but not demoted, and after one \<open>Promote\<close> already, both source files stop with
  a fatal error at that call.  For a caller whose only acquisition is a plain \<open>RLock\<close>
  the guarded source file stops there as well, when \<open>Promote\<close> unlocks \<open>g\<close>; the code of
  \<^verbatim>\<open>motex.go\<close> returns from that \<open>Promote\<close> without any error.
\<close>

theorem Promote_outside_demoted:
  "snd (play v [Promote]) = Faults 0 RUnlock_of_unlocked_RWMutex
   \<and> snd (play v [Lock, Promote]) = Faults 1 RUnlock_of_unlocked_RWMutex
   \<and> snd (play v [Lock, Demote, Promote, Promote]) = Faults 3 RUnlock_of_unlocked_RWMutex
   \<and> snd (play Guarded [RLock, Promote]) = Faults 1 Unlock_of_unlocked_mutex
   \<and> snd (play Bare [RLock, Promote]) =
       Completes \<lparr>w = \<lparr>locked = False\<rparr>, r = \<lparr>writer = True, readers = 0\<rparr>,
                  g = \<lparr>locked = False\<rparr>\<rparr>"
  by (cases v) (simp_all add: play_def fresh_def prim_defs)

section \<open>A legal sequence that does not deadlock\<close>

text \<open>
  Claim C8.  The sequence of the deadlock test, played by one caller on a fresh lock,
  runs to completion in both source files: no call of it blocks, none is fatal, and the
  lock is back in its fresh state at the end.  The sequence is legal.
\<close>

theorem deadlock_test_completes:
  "legal [Lock, Demote, Promote, Demote, RLock, RLock, RUnlock, RUnlock, Promote, Unlock,
          RLock, RLock, RUnlock, RUnlock]
   \<and> snd (play v [Lock, Demote, Promote, Demote, RLock, RLock, RUnlock, RUnlock, Promote,
                  Unlock, RLock, RLock, RUnlock, RUnlock]) = Completes fresh"
  by (cases v) (simp_all add: legal_def play_def fresh_def prim_defs)

section \<open>The methods against the operation table\<close>

text \<open>
  Claim C2.  Started in a lock state in which its precondition holds, each of the six
  methods executes all the calls of its body, in order, and returns.  With the calls on
  \<open>g\<close> left out these calls are the actions of the operation table in the table's order;
  in \<^verbatim>\<open>motex.go\<close> there is no call on \<open>g\<close> to leave out.  The lock state after the
  method is the one the table gives: \<open>Lock\<close> leaves \<open>w\<close> locked and \<open>r\<close> held
  exclusively; \<open>Unlock\<close> leaves both free; \<open>Demote\<close> and \<open>Promote\<close> leave \<open>w\<close> as it
  was and change \<open>r\<close> from exclusive to one more shared slot and back; \<open>RLock\<close> and
  \<open>RUnlock\<close> add and remove one shared slot of \<open>r\<close> and touch nothing else.
\<close>

lemma bare_keeps_g:
  "G_Lock \<notin> set (body Bare x) \<and> G_Unlock \<notin> set (body Bare x)
   \<and> (snd (run (body Bare x) m) = Done m' \<longrightarrow> g m' = g m)"
  by (cases x) (auto simp: prim_defs split: if_splits)

theorem methods_follow_table:
  assumes "ready v x m"
  shows "fst (run (body v x) m) = body v x
         \<and> on_gates (body v x) = spec_effect x
         \<and> on_gates (body Bare x) = body Bare x
         \<and> (\<exists>m'. snd (run (body v x) m) = Done m' \<and> landed v x m m')"
  using assms by (cases x; cases v) (auto simp: on_gates_def prim_defs)

theorem methods_follow_table_witness:
  "ready Guarded Demote (fresh\<lparr>w := \<lparr>locked = True\<rparr>, r := \<lparr>writer = True, readers = 0\<rparr>\<rparr>)
   \<and> run (body Guarded Demote) (fresh\<lparr>w := \<lparr>locked = True\<rparr>, r := \<lparr>writer = True, readers = 0\<rparr>\<rparr>)
     = ([R_Unlock, R_RLock, G_Lock],
        Done \<lparr>w = \<lparr>locked = True\<rparr>, r = \<lparr>writer = False, readers = 1\<rparr>, g = \<lparr>locked = True\<rparr>\<rparr>)"
  using methods_follow_table [of Guarded Demote "fresh\<lparr>w := \<lparr>locked = True\<rparr>, r := \<lparr>writer = True, readers = 0\<rparr>\<rparr>"]
  by (simp add: fresh_def prim_defs)

section \<open>Misuse that is caught\<close>

lemma detected_not_pre: "detected x p n \<Longrightarrow> \<not> pre x p n"
  by (cases x) auto

lemma legal_call_alone:
  assumes "alone v p n m" "pre x p n"
  shows "snd (run (body v x) m) = Blocked
         \<or> (\<exists>m'. snd (run (body v x) m) = Done m' \<and> alone v (post x p) (post_count x n) m')"
  using assms by (cases x; cases p; cases v) (auto simp: prim_defs)

lemma detected_call_faults:
  assumes "alone v p n m" "detected x p n"
  shows "snd (run (body v x) m) = Fatal (complaint x)"
  using assms by (cases x; cases p; cases v) (auto simp: prim_defs)

lemma play_from_detected:
  assumes "alone v p n m" "legal_from p n xs" "snd (play_from i v xs m) = Completes m'"
    and "detected x (phase_after p xs) (count_after n xs)"
  shows "snd (play_from i v (xs @ [x]) m) = Faults (i + length xs) (complaint x)"
  using assms
proof (induction xs arbitrary: p n m i)
  case Nil
  from detected_call_faults [OF Nil.prems(1)] Nil.prems(4)
  have "snd (run (body v x) m) = Fatal (complaint x)" by simp
  then show ?case
    by (cases "run (body v x) m") simp
next
  case (Cons y ys)
  from Cons.prems(2) have py: "pre y p n"
    and rest: "legal_from (post y p) (post_count y n) ys"
    by simp_all
  from Cons.prems(3) obtain tr m1 where r: "run (body v y) m = (tr, Done m1)"
    by (cases "run (body v y) m"; cases "snd (run (body v y) m)")
       (auto split: prod.splits)
  with Cons.prems(3) have c: "snd (play_from (Suc i) v ys m1) = Completes m'"
    by (auto split: prod.splits)
  from legal_call_alone [OF Cons.prems(1) py] r
  have a: "alone v (post y p) (post_count y n) m1" by simp
  from Cons.prems(4) have d: "detected x (phase_after (post y p) ys) (count_after (post_count y n) ys)"
    by simp
  from Cons.IH [OF a rest c d] r show ?case
    by (auto split: prod.splits)
qed

text \<open>
  Claim C5, as amended.  Let one caller, alone on a fresh lock, make a legal sequence of
  calls that all return, and then a call that violates its precondition: \<open>Unlock\<close> or
  \<open>Demote\<close> while not write-locked (never locked, already unlocked, demoted, or
  holding only shared acquisitions), or \<open>Promote\<close> or \<open>RUnlock\<close> while not demoted and
  holding no shared acquisition of its own.  Then that last call ends in a fatal error,
  in both source files.  The twelve misuse sequences of the specification, as the test
  file runs them, are of this kind, and each is fatal at its last call.  Nothing is said
  here about \<open>Promote\<close> by a caller that holds shared acquisitions of its own.
\<close>

theorem detected_misuse_is_fatal:
  assumes "legal xs" "snd (play v xs) = Completes m"
    and "detected x (phase_after Unlocked xs) (count_after 0 xs)"
  shows "\<not> legal (xs @ [x])
   \<and> snd (play v (xs @ [x])) = Faults (length xs) (complaint x)
   \<and> snd (play v [Unlock]) = Faults 0 Unlock_of_unlocked_RWMutex
   \<and> snd (play v [Lock, Unlock, Unlock]) = Faults 2 Unlock_of_unlocked_RWMutex
   \<and> snd (play v [RUnlock]) = Faults 0 RUnlock_of_unlocked_RWMutex
   \<and> snd (play v [RLock, RUnlock, RUnlock]) = Faults 2 RUnlock_of_unlocked_RWMutex
   \<and> snd (play v [Promote]) = Faults 0 RUnlock_of_unlocked_RWMutex
   \<and> snd (play v [Demote]) = Faults 0 Unlock_of_unlocked_RWMutex
   \<and> snd (play v [Lock, Promote]) = Faults 1 RUnlock_of_unlocked_RWMutex
   \<and> snd (play v [Lock, Demote, Demote]) = Faults 2 Unlock_of_unlocked_RWMutex
   \<and> snd (play v [Lock, Demote, Promote, Promote]) = Faults 3 RUnlock_of_unlocked_RWMutex
   \<and> snd (play v [Lock, Demote, Unlock]) = Faults 2 Unlock_of_unlocked_RWMutex
   \<and> snd (play v [Lock, RUnlock]) = Faults 1 RUnlock_of_unlocked_RWMutex
   \<and> snd (play v [RLock, Unlock]) = Faults 1 Unlock_of_unlocked_RWMutex"
proof -
  have al: "alone v Unlocked 0 fresh" by (simp add: fresh_def)
  from assms(1) have lg: "legal_from Unlocked 0 xs" by (simp add: legal_def)
  from assms(2) have co: "snd (play_from 0 v xs fresh) = Completes m" by (simp add: play_def)
  from play_from_detected [OF al lg co assms(3)]
  have f: "snd (play v (xs @ [x])) = Faults (length xs) (complaint x)"
    by (simp add: play_def)
  have nl: "\<not> legal (xs @ [x])"
  proof -
    have "legal_from p n (ys @ [x]) \<Longrightarrow> pre x (phase_after p ys) (count_after n ys)" for p n ys
      by (induction ys arbitrary: p n) simp_all
    with detected_not_pre [OF assms(3)] show ?thesis
      unfolding legal_def by blast
  qed
  have twelve: "snd (play v [Unlock]) = Faults 0 Unlock_of_unlocked_RWMutex
   \<and> snd (play v [Lock, Unlock, Unlock]) = Faults 2 Unlock_of_unlocked_RWMutex
   \<and> snd (play v [RUnlock]) = Faults 0 RUnlock_of_unlocked_RWMutex
   \<and> snd (play v [RLock, RUnlock, RUnlock]) = Faults 2 RUnlock_of_unlocked_RWMutex
   \<and> snd (play v [Promote]) = Faults 0 RUnlock_of_unlocked_RWMutex
   \<and> snd (play v [Demote]) = Faults 0 Unlock_of_unlocked_RWMutex
   \<and> snd (play v [Lock, Promote]) = Faults 1 RUnlock_of_unlocked_RWMutex
   \<and> snd (play v [Lock, Demote, Demote]) = Faults 2 Unlock_of_unlocked_RWMutex
   \<and> snd (play v [Lock, Demote, Promote, Promote]) = Faults 3 RUnlock_of_unlocked_RWMutex
   \<and> snd (play v [Lock, Demote, Unlock]) = Faults 2 Unlock_of_unlocked_RWMutex
   \<and> snd (play v [Lock, RUnlock]) = Faults 1 RUnlock_of_unlocked_RWMutex
   \<and> snd (play v [RLock, Unlock]) = Faults 1 Unlock_of_unlocked_RWMutex"
    by (cases v) (simp_all add: play_def fresh_def prim_defs)
  from nl f twelve show ?thesis by blast
qed

theorem detected_misuse_is_fatal_witness:
  "legal [Lock, Demote, RLock, RUnlock]
   \<and> snd (play Guarded [Lock, Demote, RLock, RUnlock])
     = Completes \<lparr>w = \<lparr>locked = True\<rparr>, r = \<lparr>writer = False, readers = 1\<rparr>,
                  g = \<lparr>locked = True\<rparr>\<rparr>
   \<and> detected Demote (phase_after Unlocked [Lock, Demote, RLock, RUnlock])
        (count_after 0 [Lock, Demote, RLock, RUnlock])
   \<and> snd (play Guarded [Lock, Demote, RLock, RUnlock, Demote])
     = Faults 4 Unlock_of_unlocked_RWMutex"
proof -
  let ?xs = "[Lock, Demote, RLock, RUnlock]"
  let ?m = "\<lparr>w = \<lparr>locked = True\<rparr>, r = \<lparr>writer = False, readers = 1\<rparr>,
             g = \<lparr>locked = True\<rparr>\<rparr>"
  have lg: "legal ?xs" by (simp add: legal_def)
  have co: "snd (play Guarded ?xs) = Completes ?m"
    by (simp add: play_def fresh_def prim_defs)
  have de: "detected Demote (phase_after Unlocked ?xs) (count_after 0 ?xs)" by simp
  from detected_misuse_is_fatal [OF lg co de] lg co de show ?thesis by simp
qed

text \<open>
  Claim C5 as it was stated fails: \<open>RUnlock\<close> by a demoted writer that never called
  \<open>RLock\<close> violates the precondition of \<open>RUnlock\<close>, and in both source files it
  returns without any error, releasing the shared slot of the demotion.
\<close>

theorem RUnlock_while_demoted_returns:
  "\<not> legal [Lock, Demote, RUnlock]
   \<and> snd (play Bare [Lock, Demote, RUnlock])
     = Completes \<lparr>w = \<lparr>locked = True\<rparr>, r = \<lparr>writer = False, readers = 0\<rparr>,
                  g = \<lparr>locked = False\<rparr>\<rparr>
   \<and> snd (play Guarded [Lock, Demote, RUnlock])
     = Completes \<lparr>w = \<lparr>locked = True\<rparr>, r = \<lparr>writer = False, readers = 0\<rparr>,
                  g = \<lparr>locked = True\<rparr>\<rparr>"
  by (simp add: legal_def play_def fresh_def prim_defs)

section \<open>The two source files on legal sequences of one caller\<close>

lemma one_call:
  assumes "alone Bare p n a" "alone Guarded p n b" "w a = w b" "r a = r b" "pre x p n"
  shows "on_gates (fst (run (body Guarded x) b)) = fst (run (body Bare x) a)
    \<and> ((snd (run (body Bare x) a) = Blocked \<and> snd (run (body Guarded x) b) = Blocked)
      \<or> (\<exists>a' b'. snd (run (body Bare x) a) = Done a' \<and> snd (run (body Guarded x) b) = Done b'
            \<and> alone Bare (post x p) (post_count x n) a' \<and> alone Guarded (post x p) (post_count x n) b'
            \<and> w a' = w b' \<and> r a' = r b'))"
  using assms
  by (cases x; cases p) (auto simp: on_gates_def prim_defs)

lemma play_from_agree:
  assumes "alone Bare p n a" "alone Guarded p n b" "w a = w b" "r a = r b" "legal_from p n xs"
  shows "on_gates (fst (play_from i Guarded xs b)) = fst (play_from i Bare xs a)
         \<and> agree (snd (play_from i Bare xs a)) (snd (play_from i Guarded xs b))"
  using assms
proof (induction xs arbitrary: p n a b i)
  case Nil
  then show ?case by (simp add: on_gates_def)
next
  case (Cons x xs)
  from Cons.prems have px: "pre x p n" and rest: "legal_from (post x p) (post_count x n) xs"
    by simp_all
  note oc = one_call [OF Cons.prems(1-4) px]
  from oc consider
      (blk) "snd (run (body Bare x) a) = Blocked" "snd (run (body Guarded x) b) = Blocked"
    | (dn) a' b' where "snd (run (body Bare x) a) = Done a'" "snd (run (body Guarded x) b) = Done b'"
        "alone Bare (post x p) (post_count x n) a'" "alone Guarded (post x p) (post_count x n) b'"
        "w a' = w b'" "r a' = r b'"
    by blast
  then show ?case
  proof cases
    case blk
    with oc show ?thesis
      by (cases "run (body Bare x) a"; cases "run (body Guarded x) b") simp
  next
    case dn
    note ih = Cons.IH [OF dn(3) dn(4) dn(5) dn(6) rest, of "Suc i"]
    with oc dn(1,2) show ?thesis
      by (cases "run (body Bare x) a"; cases "run (body Guarded x) b")
         (auto simp: on_gates_def split: prod.splits)
  qed
qed

section \<open>The lock stays consistent with what the threads hold\<close>

lemma ex_focus:
  "t < length H \<Longrightarrow> (\<exists>i<length H. P (H ! i)) = (P (H ! t) \<or> other P H t)"
  unfolding other_def by blast

lemma uniq_focus:
  "t < length H \<Longrightarrow>
   (\<forall>i<length H. \<forall>j<length H. P (H ! i) \<and> P (H ! j) \<longrightarrow> i = j)
   = ((P (H ! t) \<longrightarrow> \<not> other P H t)
      \<and> (\<forall>i<length H. \<forall>j<length H. i \<noteq> t \<and> j \<noteq> t \<and> P (H ! i) \<and> P (H ! j) \<longrightarrow> i = j))"
  unfolding other_def by (rule iffI; blast)

lemma all_focus:
  "t < length H \<Longrightarrow>
   (\<forall>i<length H. P (H ! i) \<longrightarrow> Q (H ! i))
   = ((P (H ! t) \<longrightarrow> Q (H ! t)) \<and> (\<forall>i<length H. i \<noteq> t \<longrightarrow> P (H ! i) \<longrightarrow> Q (H ! i)))"
  by (rule iffI; blast)

lemma sum_focus:
  assumes "t < length H"
  shows "sum_list (map slots H) = slots (H ! t) + other_slots H t"
proof -
  have "H = take t H @ H ! t # drop (Suc t) H"
    using assms by (rule id_take_nth_drop)
  then have "sum_list (map slots H)
             = sum_list (map slots (take t H @ H ! t # drop (Suc t) H))"
    by simp
  then show ?thesis
    by (simp add: other_slots_def)
qed

lemma others_imp:
  "others_ok H t \<Longrightarrow>
   (other has_x H t \<longrightarrow> other has_w H t) \<and> (other has_g H t \<longrightarrow> other has_w H t)"
  unfolding others_ok_def other_def by blast

lemma consistent_focus:
  assumes "t < length H"
  shows "consistent m H =
         (others_ok H t
          \<and> fits m (H ! t) (other has_w H t) (other has_x H t) (other has_g H t)
                 (other_slots H t))"
proof -
  have "consistent m H =
         (others_ok H t
          \<and> (locked (w m) = (has_w (H ! t) \<or> other has_w H t))
          \<and> (has_w (H ! t) \<longrightarrow> \<not> other has_w H t)
          \<and> (writer (r m) = (has_x (H ! t) \<or> other has_x H t))
          \<and> (has_x (H ! t) \<longrightarrow> has_w (H ! t))
          \<and> readers (r m) = slots (H ! t) + other_slots H t
          \<and> (writer (r m) \<longrightarrow> readers (r m) = 0)
          \<and> (locked (g m) = (has_g (H ! t) \<or> other has_g H t))
          \<and> (has_g (H ! t) \<longrightarrow> has_w (H ! t)))"
    unfolding consistent_def others_ok_def
      ex_focus [OF assms] uniq_focus [OF assms] all_focus [OF assms] sum_focus [OF assms]
    by blast
  then show ?thesis
    using others_imp [of H t] unfolding fits_def by blast
qed

lemma other_update [simp]: "other P (H[t := h]) t = other P H t"
  unfolding other_def by (rule iffI; force simp: nth_list_update)

lemma other_slots_update [simp]: "other_slots (H[t := h]) t = other_slots H t"
  by (simp add: other_slots_def)

lemma others_ok_update [simp]: "others_ok (H[t := h]) t = others_ok H t"
  unfolding others_ok_def by (simp add: nth_list_update cong: conj_cong)

lemma fits_step:
  assumes "fits m h ow ox og n" "need c h" "exec c m = Done m'"
  shows "fits m' (gain c h) ow ox og n"
  using assms unfolding fits_def
  by (cases c) (auto simp: prim_defs split: if_splits)

lemma consistent_step:
  assumes "consistent m H" "t < length H" "need c (H ! t)" "exec c m = Done m'"
  shows "consistent m' (H[t := gain c (H ! t)])"
proof -
  have t': "t < length (H[t := gain c (H ! t)])"
    using assms(2) by simp
  from assms(1) have ok: "others_ok H t"
    and f: "fits m (H ! t) (other has_w H t) (other has_x H t) (other has_g H t)
              (other_slots H t)"
    unfolding consistent_focus [OF assms(2)] by simp_all
  from fits_step [OF f assms(3,4)] ok show ?thesis
    unfolding consistent_focus [OF t'] using assms(2) by simp
qed

lemma step_cases:
  assumes "step v t s = Moved s'"
  obtains
    (s_enter) x rest where "t < length (threads s)" "act (threads s ! t) = Idle"
      "todo (threads s ! t) = Call x # rest" "pre x (ph (threads s ! t)) (shared (threads s ! t))"
      "s' = put s t ((threads s ! t)\<lparr>act := Run x [] (body v x), todo := rest\<rparr>)"
  | (s_read) rest where "t < length (threads s)" "act (threads s ! t) = Idle"
      "todo (threads s ! t) = Read # rest"
      "s' = put s t ((threads s ! t)\<lparr>old := state s, todo := rest\<rparr>)"
  | (s_write) rest where "t < length (threads s)" "act (threads s ! t) = Idle"
      "todo (threads s ! t) = Write # rest"
      "s' = put (s\<lparr>state := old (threads s ! t) + 1\<rparr>) t ((threads s ! t)\<lparr>todo := rest\<rparr>)"
  | (s_call) x dn c cs m' where "t < length (threads s)"
      "act (threads s ! t) = Run x dn (c # cs)" "exec c (lock s) = Done m'"
      "s' = put (s\<lparr>lock := m'\<rparr>) t
              ((threads s ! t)\<lparr>act := Run x (dn @ [c]) cs, held := gain c (held (threads s ! t))\<rparr>)"
  | (s_return) x dn where "t < length (threads s)" "act (threads s ! t) = Run x dn []"
      "s' = put s t ((threads s ! t)\<lparr>ph := post x (ph (threads s ! t)),
                shared := post_count x (shared (threads s ! t)), act := Idle\<rparr>)"
  using assms unfolding step_def
  by (auto split: if_splits activity.splits list.splits instr.splits outcome.splits)

lemma body_split:
  "dn @ rest = body v x \<Longrightarrow>
   (x = Lock \<and> (dn, rest) \<in> {([], [W_Lock, R_Lock]), ([W_Lock], [R_Lock]), ([W_Lock, R_Lock], [])})
   \<or> (x = Unlock \<and> (dn, rest) \<in> {([], [R_Unlock, W_Unlock]), ([R_Unlock], [W_Unlock]), ([R_Unlock, W_Unlock], [])})
   \<or> (x = Demote \<and> v = Bare \<and> (dn, rest) \<in> {([], [R_Unlock, R_RLock]), ([R_Unlock], [R_RLock]), ([R_Unlock, R_RLock], [])})
   \<or> (x = Demote \<and> v = Guarded \<and> (dn, rest) \<in> {([], [R_Unlock, R_RLock, G_Lock]), ([R_Unlock], [R_RLock, G_Lock]),
          ([R_Unlock, R_RLock], [G_Lock]), ([R_Unlock, R_RLock, G_Lock], [])})
   \<or> (x = Promote \<and> v = Bare \<and> (dn, rest) \<in> {([], [R_RUnlock, R_Lock]), ([R_RUnlock], [R_Lock]), ([R_RUnlock, R_Lock], [])})
   \<or> (x = Promote \<and> v = Guarded \<and> (dn, rest) \<in> {([], [R_RUnlock, R_Lock, G_Unlock]), ([R_RUnlock], [R_Lock, G_Unlock]),
          ([R_RUnlock, R_Lock], [G_Unlock]), ([R_RUnlock, R_Lock, G_Unlock], [])})
   \<or> (x = RLock \<and> (dn, rest) \<in> {([], [R_RLock]), ([R_RLock], [])})
   \<or> (x = RUnlock \<and> (dn, rest) \<in> {([], [R_RUnlock]), ([R_RUnlock], [])})"
  by (cases x; cases v) (auto simp: append_eq_Cons_conv)

lemma need_next:
  assumes "tinv v th" "act th = Run x dn (c # cs)"
  shows "need c (held th)"
proof -
  from assms have b: "dn @ c # cs = body v x" and p: "pre x (ph th) (shared th)"
    and h: "held th = holds v th"
    by (simp_all add: tinv_def)
  from body_split [OF b] p assms(2) show ?thesis
    unfolding h by (cases "ph th") (auto simp: holds_def)
qed

lemma holds_return:
  assumes "tinv v th" "act th = Run x dn []"
  shows "holds v (th\<lparr>ph := post x (ph th), shared := post_count x (shared th), act := Idle\<rparr>)
         = holds v th"
proof -
  from assms have b: "dn @ [] = body v x" and p: "pre x (ph th) (shared th)"
    and l: "x = Lock \<and> dn \<noteq> [] \<longrightarrow> ph th = Unlocked"
    by (simp_all add: tinv_def)
  from body_split [OF b] p l assms(2) show ?thesis
    by (cases "ph th") (auto simp: holds_def)
qed

lemma tinv_enter:
  assumes "tinv v th" "act th = Idle" "pre x (ph th) (shared th)"
  shows "tinv v (th\<lparr>act := Run x [] (body v x), todo := rest\<rparr>)"
  using assms by (simp add: tinv_def holds_def)

lemma tinv_read:
  assumes "tinv v th"
  shows "tinv v (th\<lparr>old := k, todo := rest\<rparr>)"
  using assms by (simp add: tinv_def holds_def split: activity.splits)

lemma tinv_write:
  assumes "tinv v th"
  shows "tinv v (th\<lparr>todo := rest\<rparr>)"
  using assms by (simp add: tinv_def holds_def split: activity.splits)

lemma tinv_call:
  assumes "tinv v th" "act th = Run x dn (c # cs)"
    and "x = Lock \<and> dn = [] \<longrightarrow> ph th = Unlocked"
  shows "tinv v (th\<lparr>act := Run x (dn @ [c]) cs, held := gain c (held th)\<rparr>)"
  using assms by (auto simp: tinv_def holds_def)

lemma tinv_return:
  assumes "tinv v th" "act th = Run x dn []"
  shows "tinv v (th\<lparr>ph := post x (ph th), shared := post_count x (shared th), act := Idle\<rparr>)"
proof -
  from assms(1) have "held th = holds v th" by (simp add: tinv_def)
  with holds_return [OF assms] show ?thesis
    by (simp add: tinv_def)
qed

lemma held_same_keeps:
  assumes "consistent m (map held ths)" "t < length ths" "held th' = held (ths ! t)"
  shows "consistent m (map held (ths[t := th']))"
proof -
  have "map held (ths[t := th']) = map held ths"
    using assms(2,3) by (simp add: map_update list_update_same_conv)
  with assms(1) show ?thesis by simp
qed

lemma tinv_put:
  assumes "\<forall>i<length ths. tinv v (ths ! i)" "tinv v th'"
  shows "\<forall>i<length (ths[t := th']). tinv v (ths[t := th'] ! i)"
  using assms by (cases "t < length ths") (auto simp: nth_list_update)

lemma free_w_Unlocked:
  assumes "consistent m (map held ths)" "t < length ths" "\<not> locked (w m)"
    and "tinv v (ths ! t)" "act (ths ! t) = Run x [] rest"
  shows "ph (ths ! t) = Unlocked"
proof -
  from assms(1,3) have "\<forall>i<length ths. \<not> has_w (held (ths ! i))"
    by (auto simp: consistent_def)
  with assms(2) have "\<not> has_w (held (ths ! t))" by simp
  with assms(4,5) show ?thesis
    by (cases "ph (ths ! t)") (simp_all add: tinv_def holds_def)
qed

lemma Inv_step:
  assumes "Inv v s" "step v t s = Moved s'"
  shows "Inv v s'"
proof -
  from assms(1) have con: "consistent (lock s) (map held (threads s))"
    and ti: "\<forall>i<length (threads s). tinv v (threads s ! i)"
    by (simp_all add: Inv_def)
  let ?th = "threads s ! t"
  from assms(2) show ?thesis
  proof (cases rule: step_cases)
    case (s_enter x rest)
    from ti s_enter(1) have tt: "tinv v ?th" by simp
    let ?th' = "?th\<lparr>act := Run x [] (body v x), todo := rest\<rparr>"
    have "tinv v ?th'" using tt s_enter(2,4) by (rule tinv_enter)
    moreover have "held ?th' = held ?th" by simp
    ultimately show ?thesis
      using con ti s_enter(1) unfolding Inv_def s_enter(5) put_def
      by (simp add: held_same_keeps tinv_put del: length_list_update)
  next
    case (s_read rest)
    from ti s_read(1) have tt: "tinv v ?th" by simp
    let ?th' = "?th\<lparr>old := state s, todo := rest\<rparr>"
    have "tinv v ?th'" using tt by (rule tinv_read)
    moreover have "held ?th' = held ?th" by simp
    ultimately show ?thesis
      using con ti s_read(1) unfolding Inv_def s_read(4) put_def
      by (simp add: held_same_keeps tinv_put del: length_list_update)
  next
    case (s_write rest)
    from ti s_write(1) have tt: "tinv v ?th" by simp
    let ?th' = "?th\<lparr>todo := rest\<rparr>"
    have "tinv v ?th'" using tt by (rule tinv_write)
    moreover have "held ?th' = held ?th" by simp
    ultimately show ?thesis
      using con ti s_write(1) unfolding Inv_def s_write(4) put_def
      by (simp add: held_same_keeps tinv_put del: length_list_update)
  next
    case (s_call x dn c cs m')
    let ?th' = "?th\<lparr>act := Run x (dn @ [c]) cs, held := gain c (held ?th)\<rparr>"
    from ti s_call(1) have tt: "tinv v ?th" by simp
    have nd: "need c (map held (threads s) ! t)"
      using need_next [OF tt s_call(2)] s_call(1) by simp
    have "consistent m' ((map held (threads s))[t := gain c (map held (threads s) ! t)])"
      using con _ nd s_call(3) by (rule consistent_step) (simp add: s_call(1))
    then have c': "consistent m' (map held ((threads s)[t := ?th']))"
      using s_call(1) by (simp add: map_update)
    have "x = Lock \<and> dn = [] \<longrightarrow> ph ?th = Unlocked"
    proof (intro impI, elim conjE)
      assume xl: "x = Lock" and d: "dn = []"
      with tt s_call(2) have "c = W_Lock" by (simp add: tinv_def)
      with s_call(3) have "\<not> locked (w (lock s))"
        by (auto simp: prim_defs split: if_splits)
      from free_w_Unlocked [OF con s_call(1) this tt] s_call(2) d show "ph ?th = Unlocked"
        by simp
    qed
    with tt s_call(2) have "tinv v ?th'" by (rule tinv_call)
    with c' ti show ?thesis
      unfolding Inv_def s_call(4) put_def
      by (simp add: tinv_put del: length_list_update)
  next
    case (s_return x dn)
    let ?th' = "?th\<lparr>ph := post x (ph ?th), shared := post_count x (shared ?th), act := Idle\<rparr>"
    from ti s_return(1) have tt: "tinv v ?th" by simp
    have "tinv v ?th'" using tt s_return(2) by (rule tinv_return)
    moreover have "held ?th' = held ?th" by simp
    ultimately show ?thesis
      using con ti s_return(1) unfolding Inv_def s_return(3) put_def
      by (simp add: held_same_keeps tinv_put del: length_list_update)
  qed
qed

lemma Inv_start: "Inv v (start ps)"
proof -
  have "map held (map spawn ps) = replicate (length ps) nothing"
    by (simp add: spawn_def map_replicate_const comp_def)
  then have "consistent fresh (map held (map spawn ps))"
    by (simp add: consistent_def fresh_def sum_list_replicate nothing_def)
  then show ?thesis
    by (simp add: Inv_def start_def tinv_def spawn_def holds_def nothing_def)
qed

lemma Inv_sched:
  assumes "Inv v s" "sched v ts s = Moved s'"
  shows "Inv v s'"
  using assms
proof (induction ts arbitrary: s)
  case Nil
  then show ?case by simp
next
  case (Cons t ts)
  then show ?case
    by (cases "step v t s") (auto dest: Inv_step)
qed

lemma Inv_reached: "sched v ts (start ps) = Moved s \<Longrightarrow> Inv v s"
  using Inv_start by (rule Inv_sched)

lemma Inv_fits:
  assumes "Inv v s" "t < length (threads s)"
  shows "fits (lock s) (held (threads s ! t))
           (other has_w (map held (threads s)) t) (other has_x (map held (threads s)) t)
           (other has_g (map held (threads s)) t) (other_slots (map held (threads s)) t)"
proof -
  let ?H = "map held (threads s)"
  have tl: "t < length ?H" using assms(2) by simp
  from assms(1) have "consistent (lock s) ?H" by (simp add: Inv_def)
  then show ?thesis
    unfolding consistent_focus [OF tl] using assms(2) by simp
qed

lemma Inv_others_free:
  assumes "Inv v s" "t < length (threads s)" "has_w (held (threads s ! t))"
  shows "locked (w (lock s))"
    and "\<forall>u<length (threads s). u \<noteq> t \<longrightarrow> \<not> has_w (held (threads s ! u))"
    and "\<forall>u<length (threads s). u \<noteq> t \<longrightarrow> \<not> has_x (held (threads s ! u))"
    and "\<forall>u<length (threads s). u \<noteq> t \<longrightarrow> \<not> has_g (held (threads s ! u))"
proof -
  let ?H = "map held (threads s)"
  have tl: "t < length ?H" using assms(2) by simp
  from assms(1) have "consistent (lock s) ?H" by (simp add: Inv_def)
  then have f: "fits (lock s) (?H ! t) (other has_w ?H t) (other has_x ?H t) (other has_g ?H t)
                  (other_slots ?H t)"
    unfolding consistent_focus [OF tl] by simp
  have ht: "has_w (?H ! t)" using assms(2,3) by simp
  from f ht show "locked (w (lock s))" by (simp add: fits_def)
  from f ht have no: "\<not> other has_w ?H t" "\<not> other has_x ?H t" "\<not> other has_g ?H t"
    unfolding fits_def by blast+
  from no(1) show "\<forall>u<length (threads s). u \<noteq> t \<longrightarrow> \<not> has_w (held (threads s ! u))"
    by (auto simp: other_def)
  from no(2) show "\<forall>u<length (threads s). u \<noteq> t \<longrightarrow> \<not> has_x (held (threads s ! u))"
    by (auto simp: other_def)
  from no(3) show "\<forall>u<length (threads s). u \<noteq> t \<longrightarrow> \<not> has_g (held (threads s ! u))"
    by (auto simp: other_def)
qed

section \<open>The write gate across a demoted window\<close>

lemma window_has_w:
  assumes "tinv v th" "in_window th"
  shows "has_w (held th) \<and> (\<forall>x dn c cs. act th = Run x dn (c # cs) \<longrightarrow> c \<noteq> W_Unlock)"
proof (cases "act th")
  case Idle
  with assms show ?thesis
    by (simp add: tinv_def in_window_def holds_def)
next
  case (Run x dn rest)
  with assms have h: "held th = fold gain dn (base v (ph th) (shared th))"
    and b: "dn @ rest = body v x" and p: "pre x (ph th) (shared th)"
    and l: "x = Lock \<and> dn \<noteq> [] \<longrightarrow> ph th = Unlocked"
    by (simp_all add: tinv_def holds_def)
  from assms(2) Run have w: "x = Demote \<or> x = Promote \<or> ph th = WriteLockedDemoted"
    by (auto simp: in_window_def split: op.splits)
  from body_split [OF b] p l w Run show ?thesis
    unfolding h by (cases "ph th") auto
qed

lemma window_holds_w:
  assumes "Inv v s" "t < length (threads s)" "in_window (threads s ! t)"
  shows "has_w (held (threads s ! t))"
proof -
  from assms(1,2) have "tinv v (threads s ! t)" by (simp add: Inv_def)
  from window_has_w [OF this assms(3)] show ?thesis by simp
qed

lemma step_keeps_w:
  assumes "Inv v s" "step v u s = Moved s'" "locked (w (lock s))"
    and "\<forall>x dn c cs. act (threads s ! u) = Run x dn (c # cs) \<longrightarrow> c \<noteq> W_Unlock"
  shows "w (lock s') = w (lock s)"
  using assms(2)
proof (cases rule: step_cases)
  case (s_call x dn c cs m')
  with assms(3,4) show ?thesis
    by (cases c) (auto simp: put_def prim_defs split: if_splits)
qed (simp_all add: put_def)

lemma not_at_W_Unlock:
  assumes "tinv v th" "\<not> has_w (held th)"
  shows "\<forall>x dn c cs. act th = Run x dn (c # cs) \<longrightarrow> c \<noteq> W_Unlock"
proof (intro allI impI)
  fix x dn c cs
  assume a: "act th = Run x dn (c # cs)"
  from need_next [OF assms(1) a] assms(2) show "c \<noteq> W_Unlock"
    by auto
qed

text \<open>
  Claim C1.  The bodies of \<open>Demote\<close> and \<open>Promote\<close> contain no call on the write gate.
  In every state reached by threads that make legal calls only, while a thread is in its
  window (between the entry of its \<open>Demote\<close> and the return of the matching
  \<open>Promote\<close>) the write gate is locked, this thread is the one holding it, no other
  thread holds it, and no step of any thread changes it.  So the write gate is held
  without a break across the window, and another thread's \<open>Lock\<close> cannot get past its
  first statement before the window is closed: no other writer runs from \<open>Lock\<close> to
  \<open>Unlock\<close> inside it.
\<close>

theorem write_gate_held_across_window:
  assumes "sched v ts (start ps) = Moved s" "t < length (threads s)"
    and "in_window (threads s ! t)"
  shows "locked (w (lock s)) \<and> has_w (held (threads s ! t))
         \<and> (\<forall>u<length (threads s). u \<noteq> t \<longrightarrow> \<not> has_w (held (threads s ! u)))
         \<and> (\<forall>u s'. step v u s = Moved s' \<longrightarrow> w (lock s') = w (lock s))
         \<and> W_Lock \<notin> set (body v Demote) \<and> W_Unlock \<notin> set (body v Demote)
         \<and> W_Lock \<notin> set (body v Promote) \<and> W_Unlock \<notin> set (body v Promote)"
proof -
  from assms(1) have I: "Inv v s" by (rule Inv_reached)
  then have ti: "\<forall>i<length (threads s). tinv v (threads s ! i)"
    by (simp add: Inv_def)
  with assms(2) have tt: "tinv v (threads s ! t)" by simp
  from window_has_w [OF tt assms(3)] have hw: "has_w (held (threads s ! t))"
    and nu: "\<forall>x dn c cs. act (threads s ! t) = Run x dn (c # cs) \<longrightarrow> c \<noteq> W_Unlock"
    by simp_all
  note fr = Inv_others_free [OF I assms(2) hw]
  have "w (lock s') = w (lock s)" if st: "step v u s = Moved s'" for u s'
  proof -
    from st have ul: "u < length (threads s)"
      by (auto simp: step_def split: if_splits)
    have "\<forall>x dn c cs. act (threads s ! u) = Run x dn (c # cs) \<longrightarrow> c \<noteq> W_Unlock"
    proof (cases "u = t")
      case True
      with nu show ?thesis by simp
    next
      case False
      with fr(2) ul have "\<not> has_w (held (threads s ! u))" by simp
      moreover from ti ul have "tinv v (threads s ! u)" by simp
      ultimately show ?thesis by (rule not_at_W_Unlock [rotated])
    qed
    with I st fr(1) show ?thesis by (rule step_keeps_w)
  qed
  moreover have "W_Lock \<notin> set (body v Demote) \<and> W_Unlock \<notin> set (body v Demote)
         \<and> W_Lock \<notin> set (body v Promote) \<and> W_Unlock \<notin> set (body v Promote)"
    by (cases v) simp_all
  ultimately show ?thesis
    using fr(1,2) hw by blast
qed

theorem write_gate_held_across_window_witness:
  "sched Guarded (replicate 9 0 @ [1])
     (start [ [Call Lock, Call Demote, Call Promote, Call Unlock], [Call Lock, Call Unlock] ])
   = Moved
       \<lparr>lock = \<lparr>w = \<lparr>locked = True\<rparr>, r = \<lparr>writer = False, readers = 1\<rparr>,
                 g = \<lparr>locked = True\<rparr>\<rparr>,
        threads =
          [\<lparr>ph = WriteLockedDemoted, shared = 0, act = Idle,
             held = \<lparr>has_w = True, has_x = False, slots = 1, has_g = True\<rparr>,
             todo = [Call Promote, Call Unlock], old = 0\<rparr>,
           \<lparr>ph = Unlocked, shared = 0, act = Run Lock [] [W_Lock, R_Lock],
             held = nothing, todo = [Call Unlock], old = 0\<rparr>],
        state = 0\<rparr>
   \<and> sched Guarded (replicate 9 0 @ [1, 1])
       (start [ [Call Lock, Call Demote, Call Promote, Call Unlock], [Call Lock, Call Unlock] ])
     = Waits"
proof -
  let ?ps = "[ [Call Lock, Call Demote, Call Promote, Call Unlock], [Call Lock, Call Unlock] ]"
  let ?s = "\<lparr>lock = \<lparr>w = \<lparr>locked = True\<rparr>, r = \<lparr>writer = False, readers = 1\<rparr>,
                 g = \<lparr>locked = True\<rparr>\<rparr>,
        threads =
          [\<lparr>ph = WriteLockedDemoted, shared = 0, act = Idle,
             held = \<lparr>has_w = True, has_x = False, slots = 1, has_g = True\<rparr>,
             todo = [Call Promote, Call Unlock], old = 0\<rparr>,
           \<lparr>ph = Unlocked, shared = 0, act = Run Lock [] [W_Lock, R_Lock],
             held = nothing, todo = [Call Unlock], old = 0\<rparr>],
        state = 0\<rparr>"
  have run: "sched Guarded (replicate 9 0 @ [1]) (start ?ps) = Moved ?s"
    by code_simp
  have len: "0 < length (threads ?s)" by simp
  have win: "in_window (threads ?s ! 0)" by (simp add: in_window_def)
  have "sched Guarded (replicate 9 0 @ [1, 1]) (start ?ps) = Waits"
    by code_simp
  with write_gate_held_across_window [OF run len win] run show ?thesis
    by simp
qed

section \<open>The invariants of the data model\<close>

text \<open>
  Claim C6.  In every state reached by threads that make legal calls only: the write
  gate is locked exactly when some thread holds it, and at most one thread does; the
  read/write gate is in exclusive mode exactly when some thread holds it exclusively,
  that thread holds the write gate too (so it is the only one), and no shared slot is
  taken then; the reader count is the number of shared slots the threads hold; and when
  a thread is demoted it holds the write gate, no other thread does or is demoted, the
  read/write gate is not in exclusive mode, and the thread holds one shared slot more than
  it acquired through \<open>RLock\<close>: the slot of its demotion.  All other shared slots are
  held by threads that do not hold the write gate.
\<close>

theorem section3_invariants:
  assumes "sched v ts (start ps) = Moved s"
  shows "(locked (w (lock s)) = (\<exists>i<length (threads s). has_w (held (threads s ! i))))
    \<and> (\<forall>i<length (threads s). \<forall>j<length (threads s).
          has_w (held (threads s ! i)) \<and> has_w (held (threads s ! j)) \<longrightarrow> i = j)
    \<and> (writer (r (lock s)) = (\<exists>i<length (threads s). has_x (held (threads s ! i))))
    \<and> (\<forall>i<length (threads s). has_x (held (threads s ! i)) \<longrightarrow> has_w (held (threads s ! i)))
    \<and> (writer (r (lock s)) \<longrightarrow> readers (r (lock s)) = 0)
    \<and> readers (r (lock s)) = sum_list (map (\<lambda>th. slots (held th)) (threads s))
    \<and> (\<forall>i<length (threads s).
          ph (threads s ! i) = WriteLockedDemoted \<and> act (threads s ! i) = Idle \<longrightarrow>
            has_w (held (threads s ! i)) \<and> \<not> has_x (held (threads s ! i))
            \<and> slots (held (threads s ! i)) = Suc (shared (threads s ! i))
            \<and> \<not> writer (r (lock s))
            \<and> (\<forall>j<length (threads s). j \<noteq> i \<longrightarrow>
                  \<not> has_w (held (threads s ! j)) \<and> ph (threads s ! j) \<noteq> WriteLockedDemoted))"
proof -
  from assms have I: "Inv v s" by (rule Inv_reached)
  then have con: "consistent (lock s) (map held (threads s))"
    and ti: "\<forall>i<length (threads s). tinv v (threads s ! i)"
    by (simp_all add: Inv_def)
  have m: "map slots (map held (threads s)) = map (\<lambda>th. slots (held th)) (threads s)"
    by simp
  from con have six:
    "(locked (w (lock s)) = (\<exists>i<length (threads s). has_w (held (threads s ! i))))
    \<and> (\<forall>i<length (threads s). \<forall>j<length (threads s).
          has_w (held (threads s ! i)) \<and> has_w (held (threads s ! j)) \<longrightarrow> i = j)
    \<and> (writer (r (lock s)) = (\<exists>i<length (threads s). has_x (held (threads s ! i))))
    \<and> (\<forall>i<length (threads s). has_x (held (threads s ! i)) \<longrightarrow> has_w (held (threads s ! i)))
    \<and> (writer (r (lock s)) \<longrightarrow> readers (r (lock s)) = 0)
    \<and> readers (r (lock s)) = sum_list (map (\<lambda>th. slots (held th)) (threads s))"
    unfolding consistent_def m [symmetric] by (simp cong: conj_cong)
  have dem: "has_w (held (threads s ! i)) \<and> \<not> has_x (held (threads s ! i))
            \<and> slots (held (threads s ! i)) = Suc (shared (threads s ! i))
            \<and> \<not> writer (r (lock s))
            \<and> (\<forall>j<length (threads s). j \<noteq> i \<longrightarrow>
                  \<not> has_w (held (threads s ! j)) \<and> ph (threads s ! j) \<noteq> WriteLockedDemoted)"
    if il: "i < length (threads s)" and p: "ph (threads s ! i) = WriteLockedDemoted"
      and a: "act (threads s ! i) = Idle" for i
  proof -
    from ti il have "tinv v (threads s ! i)" by simp
    with p a have h: "held (threads s ! i) = base v WriteLockedDemoted (shared (threads s ! i))"
      by (simp add: tinv_def holds_def)
    then have hw: "has_w (held (threads s ! i))" by simp
    note fr = Inv_others_free [OF I il hw]
    have "\<not> writer (r (lock s))"
      using Inv_fits [OF I il] unfolding fits_def h by auto
    moreover have "ph (threads s ! j) \<noteq> WriteLockedDemoted"
      if jl: "j < length (threads s)" and ne: "j \<noteq> i" for j
    proof
      assume pj: "ph (threads s ! j) = WriteLockedDemoted"
      from ti jl have tj: "tinv v (threads s ! j)" by simp
      have "in_window (threads s ! j)"
        using pj by (simp add: in_window_def split: activity.splits op.splits)
      from window_has_w [OF tj this] fr(2) jl ne show False by simp
    qed
    ultimately show ?thesis
      using h fr(2) by simp
  qed
  from six dem show ?thesis by blast
qed

theorem section3_invariants_witness:
  "sched Guarded (replicate 9 0 @ [1, 1, 1]) (start [ [Call Lock, Call Demote], [Call RLock] ])
   = Moved
       \<lparr>lock = \<lparr>w = \<lparr>locked = True\<rparr>, r = \<lparr>writer = False, readers = 2\<rparr>,
                 g = \<lparr>locked = True\<rparr>\<rparr>,
        threads =
          [\<lparr>ph = WriteLockedDemoted, shared = 0, act = Idle,
             held = \<lparr>has_w = True, has_x = False, slots = 1, has_g = True\<rparr>,
             todo = [], old = 0\<rparr>,
           \<lparr>ph = Unlocked, shared = 1, act = Idle,
             held = \<lparr>has_w = False, has_x = False, slots = 1, has_g = False\<rparr>,
             todo = [], old = 0\<rparr>],
        state = 0\<rparr>"
proof -
  let ?s = "\<lparr>lock = \<lparr>w = \<lparr>locked = True\<rparr>, r = \<lparr>writer = False, readers = 2\<rparr>,
                 g = \<lparr>locked = True\<rparr>\<rparr>,
        threads =
          [\<lparr>ph = WriteLockedDemoted, shared = 0, act = Idle,
             held = \<lparr>has_w = True, has_x = False, slots = 1, has_g = True\<rparr>,
             todo = [], old = 0\<rparr>,
           \<lparr>ph = Unlocked, shared = 1, act = Idle,
             held = \<lparr>has_w = False, has_x = False, slots = 1, has_g = False\<rparr>,
             todo = [], old = 0\<rparr>],
        state = 0\<rparr>"
  have run: "sched Guarded (replicate 9 0 @ [1, 1, 1])
               (start [ [Call Lock, Call Demote], [Call RLock] ]) = Moved ?s"
    by code_simp
  from section3_invariants [OF run] run show ?thesis
    by simp
qed

section \<open>Release operations do not wait\<close>

lemma release_call_returns:
  assumes "Inv v s" "t < length (threads s)" "act (threads s ! t) = Run x dn (c # cs)"
    and "releasing x"
  shows "\<exists>m'. exec c (lock s) = Done m'"
proof -
  let ?th = "threads s ! t"
  from assms(1,2) have tt: "tinv v ?th" by (simp add: Inv_def)
  with assms(3) have h: "held ?th = fold gain dn (base v (ph ?th) (shared ?th))"
    and b: "dn @ c # cs = body v x" and p: "pre x (ph ?th) (shared ?th)"
    by (simp_all add: tinv_def holds_def)
  note f = Inv_fits [OF assms(1,2)]
  from body_split [OF b] p assms(4) f show ?thesis
    unfolding h fits_def releasing_def
    by (cases "ph ?th") (auto simp: prim_defs)
qed

lemma release_runs_to_end:
  assumes "Inv v s" "t < length (threads s)" "act (threads s ! t) = Run x dn rest"
    and "releasing x"
  shows "\<exists>s'. sched v (replicate (Suc (length rest)) t) s = Moved s'
              \<and> act (threads s' ! t) = Idle"
  using assms
proof (induction rest arbitrary: s dn)
  case Nil
  then show ?case
    by (simp add: step_def put_def)
next
  case (Cons c cs)
  from release_call_returns [OF Cons.prems] obtain m' where e: "exec c (lock s) = Done m'"
    by blast
  let ?s1 = "put (s\<lparr>lock := m'\<rparr>) t
               ((threads s ! t)\<lparr>act := Run x (dn @ [c]) cs,
                                  held := gain c (held (threads s ! t))\<rparr>)"
  have st: "step v t s = Moved ?s1"
    using Cons.prems(2,3) e by (simp add: step_def)
  have I1: "Inv v ?s1" using Cons.prems(1) st by (rule Inv_step)
  have l1: "t < length (threads ?s1)" using Cons.prems(2) by (simp add: put_def)
  have a1: "act (threads ?s1 ! t) = Run x (dn @ [c]) cs"
    using Cons.prems(2) by (simp add: put_def)
  from Cons.IH [OF I1 l1 a1 Cons.prems(4)] st show ?case
    by simp
qed

lemma at_R_Lock_has_w:
  assumes "tinv v th" "act th = Run y d (R_Lock # cs)"
  shows "has_w (held th)"
  using need_next [OF assms] by simp

text \<open>
  Claim C7.  In every state reached by threads that make legal calls only, a thread
  inside \<open>Unlock\<close>, \<open>RUnlock\<close> or \<open>Demote\<close> can take its next step, and when it is
  run on its own from there it executes the rest of the method and returns: no call of
  these methods blocks and none is fatal, whatever the other threads have done before.
  For \<open>Demote\<close> this includes the shared acquisition of \<open>r\<close> and, in the guarded source
  file, the acquisition of \<open>g\<close>: while a thread is inside \<open>Demote\<close> no other thread
  holds \<open>r\<close> exclusively or is at a call that asks for it, none holds \<open>g\<close>, and none is
  in a demoted window.
\<close>

theorem releases_never_block:
  assumes "sched v ts (start ps) = Moved s" "t < length (threads s)"
    and "act (threads s ! t) = Run x dn rest" "releasing x"
  shows "(\<exists>s'. step v t s = Moved s')
         \<and> (\<exists>s'. sched v (replicate (Suc (length rest)) t) s = Moved s'
                  \<and> act (threads s' ! t) = Idle)
         \<and> (x = Demote \<longrightarrow>
              (\<forall>u<length (threads s). u \<noteq> t \<longrightarrow>
                 \<not> has_x (held (threads s ! u)) \<and> \<not> has_g (held (threads s ! u))
                 \<and> (\<forall>y d cs. act (threads s ! u) \<noteq> Run y d (R_Lock # cs))
                 \<and> \<not> in_window (threads s ! u)))"
proof -
  from assms(1) have I: "Inv v s" by (rule Inv_reached)
  from release_runs_to_end [OF I assms(2,3,4)] obtain s' where
    r: "sched v (replicate (Suc (length rest)) t) s = Moved s'" "act (threads s' ! t) = Idle"
    by blast
  from r(1) have one: "\<exists>s1. step v t s = Moved s1"
    by (cases "step v t s") simp_all
  have dem: "\<not> has_x (held (threads s ! u)) \<and> \<not> has_g (held (threads s ! u))
             \<and> (\<forall>y d cs. act (threads s ! u) \<noteq> Run y d (R_Lock # cs))
             \<and> \<not> in_window (threads s ! u)"
    if xd: "x = Demote" and ul: "u < length (threads s)" and ne: "u \<noteq> t" for u
  proof -
    from assms(3) xd have "in_window (threads s ! t)"
      by (simp add: in_window_def)
    from window_holds_w [OF I assms(2) this]
    have hw: "has_w (held (threads s ! t))" .
    note fr = Inv_others_free [OF I assms(2) hw]
    from I ul have tu: "tinv v (threads s ! u)" by (simp add: Inv_def)
    from fr(2) ul ne have nw: "\<not> has_w (held (threads s ! u))" by simp
    have "\<forall>y d cs. act (threads s ! u) \<noteq> Run y d (R_Lock # cs)"
      using at_R_Lock_has_w [OF tu] nw by blast
    moreover have "\<not> in_window (threads s ! u)"
      using window_has_w [OF tu] nw by blast
    ultimately show ?thesis
      using fr(3,4) ul ne by simp
  qed
  from r one dem show ?thesis by blast
qed

theorem releases_never_block_witness:
  "sched Guarded (replicate 6 0) (start [ [Call Lock, Call Demote], [Call RLock] ])
   = Moved
       \<lparr>lock = \<lparr>w = \<lparr>locked = True\<rparr>, r = \<lparr>writer = False, readers = 0\<rparr>,
                 g = \<lparr>locked = False\<rparr>\<rparr>,
        threads =
          [\<lparr>ph = WriteLocked, shared = 0, act = Run Demote [R_Unlock] [R_RLock, G_Lock],
             held = \<lparr>has_w = True, has_x = False, slots = 0, has_g = False\<rparr>,
             todo = [], old = 0\<rparr>,
           \<lparr>ph = Unlocked, shared = 0, act = Idle, held = nothing,
             todo = [Call RLock], old = 0\<rparr>],
        state = 0\<rparr>
   \<and> (\<exists>s'. sched Guarded (replicate 9 0) (start [ [Call Lock, Call Demote], [Call RLock] ])
             = Moved s' \<and> act (threads s' ! 0) = Idle)"
proof -
  let ?ps = "[ [Call Lock, Call Demote], [Call RLock] ]"
  let ?s = "\<lparr>lock = \<lparr>w = \<lparr>locked = True\<rparr>, r = \<lparr>writer = False, readers = 0\<rparr>,
                 g = \<lparr>locked = False\<rparr>\<rparr>,
        threads =
          [\<lparr>ph = WriteLocked, shared = 0, act = Run Demote [R_Unlock] [R_RLock, G_Lock],
             held = \<lparr>has_w = True, has_x = False, slots = 0, has_g = False\<rparr>,
             todo = [], old = 0\<rparr>,
           \<lparr>ph = Unlocked, shared = 0, act = Idle, held = nothing,
             todo = [Call RLock], old = 0\<rparr>],
        state = 0\<rparr>"
  have run: "sched Guarded (replicate 6 0) (start ?ps) = Moved ?s"
    by code_simp
  have len: "0 < length (threads ?s)" by simp
  have a: "act (threads ?s ! 0) = Run Demote [R_Unlock] [R_RLock, G_Lock]" by simp
  have rel: "releasing Demote" by (simp add: releasing_def)
  from releases_never_block [OF run len a rel]
  obtain s' where e: "sched Guarded (replicate (Suc (length [R_RLock, G_Lock])) 0) ?s = Moved s'"
    "act (threads s' ! 0) = Idle"
    by blast
  have "sched Guarded (replicate 9 0) (start ?ps)
        = sched Guarded (replicate (Suc (length [R_RLock, G_Lock])) 0) ?s"
    by code_simp
  with e run show ?thesis by simp
qed

section \<open>No increment is lost\<close>

lemma role_enter:
  assumes "role_ok k p th" "act th = Idle" "todo th = Call x # rest" "pre x (ph th) (shared th)"
  shows "role_ok k p (th\<lparr>act := Run x [] bd, todo := rest\<rparr>)"
  using assms
  by (auto simp: role_ok_def inc_ok_def reader_ok_def reader_only_def is_run_def)

lemma role_read:
  assumes "role_ok k p th" "act th = Idle" "todo th = Read # rest"
  shows "role_ok k p (th\<lparr>old := k, todo := rest\<rparr>)"
  using assms
  by (auto simp: role_ok_def inc_ok_def reader_ok_def reader_only_def is_run_def)

lemma role_write:
  assumes "role_ok k p th" "act th = Idle" "todo th = Write # rest"
  shows "role_ok (old th + 1) p (th\<lparr>todo := rest\<rparr>) \<and> old th = k \<and> ph th = WriteLocked
         \<and> count_list rest Write = 0"
  using assms
  by (auto simp: role_ok_def inc_ok_def reader_ok_def reader_only_def is_run_def)

lemma role_call:
  assumes "role_ok k p th" "act th = Run x dn (c # cs)"
  shows "role_ok k p (th\<lparr>act := Run x (dn @ [c]) cs, held := h\<rparr>)"
  using assms
  by (auto simp: role_ok_def inc_ok_def reader_ok_def reader_only_def is_run_def)

lemma role_return:
  assumes "role_ok k p th" "act th = Run x dn []"
  shows "role_ok k p (th\<lparr>ph := post x (ph th), shared := post_count x (shared th),
                          act := Idle\<rparr>)"
  using assms
  by (auto simp: role_ok_def inc_ok_def reader_ok_def reader_only_def is_run_def)

lemma role_state:
  assumes "role_ok k p th" "tinv v th" "\<not> has_w (held th)"
  shows "role_ok k' p th"
proof (cases "p = demotedIncrement")
  case False
  with assms(1) show ?thesis by (simp add: role_ok_def)
next
  case True
  have "\<not> in_window th" and "\<not> (act th = Idle \<and> ph th = WriteLocked)"
    using window_has_w [OF assms(2)] assms(2,3)
    by (auto simp: tinv_def holds_def)
  with True assms(1) show ?thesis
    by (auto simp: role_ok_def inc_ok_def in_window_def is_run_def
        split: activity.splits op.splits)
qed

lemma sum_map_update:
  "t < length xs \<Longrightarrow>
   sum_list (map f (xs[t := y])) + f (xs ! t) = sum_list (map f xs) + (f y :: nat)"
  by (induction xs arbitrary: t) (auto simp: nth_Cons split: nat.splits)

lemma tally_put:
  assumes "t < length (threads s)" "pending th' = pending (threads s ! t)"
  shows "tally (put s t th') = tally s"
  using sum_map_update [OF assms(1), of pending th'] assms(2)
  by (simp add: tally_def put_def)

lemma tally_put_lock:
  assumes "t < length (threads s)" "pending th' = pending (threads s ! t)"
  shows "tally (put (s\<lparr>lock := m\<rparr>) t th') = tally s"
  using sum_map_update [OF assms(1), of pending th'] assms(2)
  by (simp add: tally_def put_def)

lemma tally_put_write:
  assumes "t < length (threads s)" "Suc (pending th') = pending (threads s ! t)"
  shows "tally (put (s\<lparr>state := state s + 1\<rparr>) t th') = tally s"
  using sum_map_update [OF assms(1), of pending th'] assms(2)
  by (simp add: tally_def put_def)

lemma roles_put:
  assumes "\<forall>i<length ps. role_ok k (ps ! i) (ths ! i)" "length ths = length ps"
    and "role_ok k (ps ! t) th'"
  shows "\<forall>i<length ps. role_ok k (ps ! i) (ths[t := th'] ! i)"
  using assms by (cases "t < length ths") (auto simp: nth_list_update)

lemma CInv_step:
  assumes "CInv v ps s" "step v t s = Moved s'"
  shows "CInv v ps s' \<and> tally s' = tally s"
proof -
  from assms(1) have I: "Inv v s" and len: "length (threads s) = length ps"
    and ro: "\<forall>i<length ps. role_ok (state s) (ps ! i) (threads s ! i)"
    by (simp_all add: CInv_def)
  from I assms(2) have I': "Inv v s'" by (rule Inv_step)
  let ?th = "threads s ! t"
  from assms(2) show ?thesis
  proof (cases rule: step_cases)
    case (s_enter x rest)
    let ?th' = "?th\<lparr>act := Run x [] (body v x), todo := rest\<rparr>"
    from ro s_enter(1) len have "role_ok (state s) (ps ! t) ?th" by simp
    then have "role_ok (state s) (ps ! t) ?th'"
      using s_enter(2,3,4) by (rule role_enter)
    with ro len have "\<forall>i<length ps. role_ok (state s) (ps ! i) ((threads s)[t := ?th'] ! i)"
      by (rule roles_put)
    moreover have "pending ?th' = pending ?th"
      using s_enter(3) by (simp add: pending_def)
    ultimately show ?thesis
      using I' len s_enter(1) unfolding s_enter(5)
      by (simp add: CInv_def tally_put) (simp add: put_def)
  next
    case (s_read rest)
    let ?th' = "?th\<lparr>old := state s, todo := rest\<rparr>"
    from ro s_read(1) len have "role_ok (state s) (ps ! t) ?th" by simp
    then have "role_ok (state s) (ps ! t) ?th'"
      using s_read(2,3) by (rule role_read)
    with ro len have "\<forall>i<length ps. role_ok (state s) (ps ! i) ((threads s)[t := ?th'] ! i)"
      by (rule roles_put)
    moreover have "pending ?th' = pending ?th"
      using s_read(3) by (simp add: pending_def)
    ultimately show ?thesis
      using I' len s_read(1) unfolding s_read(4)
      by (simp add: CInv_def tally_put) (simp add: put_def)
  next
    case (s_write rest)
    let ?th' = "?th\<lparr>todo := rest\<rparr>"
    from ro s_write(1) len have "role_ok (state s) (ps ! t) ?th" by simp
    from role_write [OF this s_write(2,3)]
    have r': "role_ok (old ?th + 1) (ps ! t) ?th'" and o: "old ?th = state s"
      and p: "ph ?th = WriteLocked" and c: "count_list rest Write = 0"
      by blast+
    from I s_write(1) have tt: "tinv v ?th" by (simp add: Inv_def)
    with s_write(2) p have hw: "has_w (held ?th)"
      by (simp add: tinv_def holds_def)
    note fr = Inv_others_free [OF I s_write(1) hw]
    have "role_ok (old ?th + 1) (ps ! i) (threads s ! i)" if "i < length ps" "i \<noteq> t" for i
    proof -
      from that len fr(2) have "\<not> has_w (held (threads s ! i))" by simp
      moreover from I that len have "tinv v (threads s ! i)" by (simp add: Inv_def)
      moreover from ro that have "role_ok (state s) (ps ! i) (threads s ! i)" by simp
      ultimately show ?thesis by (simp add: role_state)
    qed
    with r' have "\<forall>i<length ps. role_ok (old ?th + 1) (ps ! i) ((threads s)[t := ?th'] ! i)"
      using s_write(1) len by (auto simp: nth_list_update)
    moreover have "Suc (pending ?th') = pending ?th"
      using s_write(3) c by (simp add: pending_def)
    moreover have "s\<lparr>state := old ?th + 1\<rparr> = s\<lparr>state := state s + 1\<rparr>"
      using o by simp
    ultimately show ?thesis
      using I' len s_write(1) unfolding s_write(4)
      by (simp add: CInv_def tally_put_write) (simp add: put_def o)
  next
    case (s_call x dn c cs m')
    let ?th' = "?th\<lparr>act := Run x (dn @ [c]) cs, held := gain c (held ?th)\<rparr>"
    from ro s_call(1) len have "role_ok (state s) (ps ! t) ?th" by simp
    then have "role_ok (state s) (ps ! t) ?th'"
      using s_call(2) by (rule role_call)
    with ro len have "\<forall>i<length ps. role_ok (state s) (ps ! i) ((threads s)[t := ?th'] ! i)"
      by (rule roles_put)
    moreover have "pending ?th' = pending ?th"
      by (simp add: pending_def)
    ultimately show ?thesis
      using I' len s_call(1) unfolding s_call(4)
      by (simp add: CInv_def tally_put_lock) (simp add: put_def)
  next
    case (s_return x dn)
    let ?th' = "?th\<lparr>ph := post x (ph ?th), shared := post_count x (shared ?th), act := Idle\<rparr>"
    from ro s_return(1) len have "role_ok (state s) (ps ! t) ?th" by simp
    then have "role_ok (state s) (ps ! t) ?th'"
      using s_return(2) by (rule role_return)
    with ro len have "\<forall>i<length ps. role_ok (state s) (ps ! i) ((threads s)[t := ?th'] ! i)"
      by (rule roles_put)
    moreover have "pending ?th' = pending ?th"
      by (simp add: pending_def)
    ultimately show ?thesis
      using I' len s_return(1) unfolding s_return(3)
      by (simp add: CInv_def tally_put) (simp add: put_def)
  qed
qed

lemma CInv_sched:
  assumes "CInv v ps s" "sched v ts s = Moved s'"
  shows "CInv v ps s' \<and> tally s' = tally s"
  using assms
proof (induction ts arbitrary: s)
  case Nil
  then show ?case by simp
next
  case (Cons t ts)
  from Cons.prems(2) obtain s1 where st: "step v t s = Moved s1" and re: "sched v ts s1 = Moved s'"
    by (cases "step v t s") simp_all
  from CInv_step [OF Cons.prems(1) st] have "CInv v ps s1" and "tally s1 = tally s"
    by simp_all
  with Cons.IH [OF _ re] show ?case by simp
qed

lemma reader_no_Write: "reader_only p \<Longrightarrow> count_list p Write = 0"
  by (induction p) (auto simp: reader_only_def)

lemma reader_not_inc: "reader_only p \<Longrightarrow> p \<noteq> demotedIncrement"
  by (auto simp: reader_only_def demotedIncrement_def)

lemma CInv_start:
  assumes "\<forall>p\<in>set rs. reader_only p"
  shows "CInv v (replicate n demotedIncrement @ rs) (start (replicate n demotedIncrement @ rs))"
proof -
  let ?ps = "replicate n demotedIncrement @ rs"
  have "role_ok 0 (?ps ! i) (map spawn ?ps ! i)" if "i < length ?ps" for i
  proof (cases "i < n")
    case True
    then show ?thesis
      using that by (simp add: nth_append role_ok_def inc_ok_def spawn_def demotedIncrement_def)
  next
    case False
    with that have "rs ! (i - n) \<in> set rs" by simp
    with assms have ro: "reader_only (rs ! (i - n))" by blast
    with False that show ?thesis
      by (simp add: nth_append role_ok_def reader_ok_def spawn_def reader_not_inc)
  qed
  then show ?thesis
    by (simp add: CInv_def Inv_start) (simp add: start_def)
qed

lemma tally_start:
  assumes "\<forall>p\<in>set rs. reader_only p"
  shows "tally (start (replicate n demotedIncrement @ rs)) = int n"
proof -
  have a: "sum_list (map pending (map spawn (replicate n demotedIncrement))) = n"
    by (induction n) (simp_all add: pending_def spawn_def demotedIncrement_def)
  have b: "sum_list (map pending (map spawn rs)) = 0"
    using assms by (induction rs) (simp_all add: pending_def spawn_def reader_no_Write)
  from a b show ?thesis
    by (simp add: tally_def start_def)
qed

lemma finished_no_pending: "finished s \<Longrightarrow> sum_list (map pending (threads s)) = 0"
  unfolding finished_def
  by (induction "threads s" arbitrary: s) (auto simp: pending_def list_all_iff)

lemma total_work_put:
  assumes "t < length (threads s)" "Suc (work v th') = work v (threads s ! t)"
    and "threads s0 = threads s"
  shows "Suc (total_work v (put s0 t th')) = total_work v s"
  using sum_map_update [OF assms(1), of "work v" th'] assms(2,3)
  by (simp add: total_work_def put_def)

lemma work_step:
  assumes "step v t s = Moved s'"
  shows "Suc (total_work v s') = total_work v s"
  using assms
proof (cases rule: step_cases)
  case (s_enter x rest)
  show ?thesis unfolding s_enter(5)
    by (rule total_work_put [OF s_enter(1)]) (simp_all add: work_def s_enter(2,3))
next
  case (s_read rest)
  show ?thesis unfolding s_read(4)
    by (rule total_work_put [OF s_read(1)]) (simp_all add: work_def s_read(2,3))
next
  case (s_write rest)
  show ?thesis unfolding s_write(4)
    by (rule total_work_put [OF s_write(1)]) (simp_all add: work_def s_write(2,3))
next
  case (s_call x dn c cs m')
  show ?thesis unfolding s_call(4)
    by (rule total_work_put [OF s_call(1)]) (simp_all add: work_def s_call(2))
next
  case (s_return x dn)
  show ?thesis unfolding s_return(3)
    by (rule total_work_put [OF s_return(1)]) (simp_all add: work_def s_return(2))
qed

lemma work_sched:
  assumes "sched v ts s = Moved s'"
  shows "length ts + total_work v s' = total_work v s"
  using assms
proof (induction ts arbitrary: s)
  case Nil
  then show ?case by simp
next
  case (Cons t ts)
  from Cons.prems obtain s1 where st: "step v t s = Moved s1" and re: "sched v ts s1 = Moved s'"
    by (cases "step v t s") simp_all
  from Cons.IH [OF re] work_step [OF st] show ?case by simp
qed

lemma work_start_incs:
  "total_work v (start (replicate n demotedIncrement)) \<le> 20 * n"
proof -
  have "work v (spawn demotedIncrement) \<le> 20"
    by (cases v) (simp_all add: work_def spawn_def demotedIncrement_def)
  then have "sum_list (map (work v) (map spawn (replicate n demotedIncrement))) \<le> 20 * n"
    by (induction n) simp_all
  then show ?thesis by (simp add: total_work_def start_def)
qed

lemma inc_free_slots:
  assumes "inc_ok k th" "tinv v th" "\<not> has_w (held th)"
  shows "slots (held th) = 0"
proof (cases "act th")
  case Idle
  with assms show ?thesis
    by (cases "ph th") (auto simp: inc_ok_def tinv_def holds_def is_run_def)
next
  case (Run x dn rest)
  with assms(2) have h: "held th = fold gain dn (base v (ph th) (shared th))"
    and b: "dn @ rest = body v x"
    by (simp_all add: tinv_def holds_def)
  from assms(1) Run have
    "shared th = 0 \<and> (x = Lock \<and> ph th = Unlocked \<or> x = Demote \<and> ph th = WriteLocked
       \<or> x = Promote \<and> ph th = WriteLockedDemoted \<or> x = Unlock \<and> ph th = WriteLocked)"
    by (auto simp: inc_ok_def is_run_def)
  with body_split [OF b] assms(3) show ?thesis
    unfolding h by auto
qed

lemma other_slots_zero:
  assumes "\<forall>u<length H. u \<noteq> t \<longrightarrow> slots (H ! u) = 0"
  shows "other_slots H t = 0"
proof -
  have "\<forall>x\<in>set (take t H). slots x = 0"
    using assms by (auto simp: in_set_conv_nth)
  moreover have "\<forall>x\<in>set (drop (Suc t) H). slots x = 0"
    using assms by (auto simp: in_set_conv_nth)
  ultimately show ?thesis
    by (simp add: other_slots_def)
qed

lemma holder_steps:
  assumes "Inv v s" "t < length (threads s)" "inc_ok k (threads s ! t)"
    and "has_w (held (threads s ! t))"
    and "\<forall>u<length (threads s). u \<noteq> t \<longrightarrow> slots (held (threads s ! u)) = 0"
  shows "\<exists>s'. step v t s = Moved s'"
proof -
  let ?th = "threads s ! t"
  let ?H = "map held (threads s)"
  from assms(1,2) have tt: "tinv v ?th" by (simp add: Inv_def)
  have z: "other_slots ?H t = 0"
    by (rule other_slots_zero) (use assms(5) in simp)
  from Inv_fits [OF assms(1,2)] z assms(4)
  have f: "locked (w (lock s))" "writer (r (lock s)) = has_x (held ?th)"
    "readers (r (lock s)) = slots (held ?th)" "locked (g (lock s)) = has_g (held ?th)"
    unfolding fits_def by auto
  show ?thesis
  proof (cases "act ?th")
    case Idle
    with assms(3,4) tt show ?thesis using assms(2)
      by (cases "ph ?th") (auto simp: step_def inc_ok_def tinv_def holds_def is_run_def)
  next
    case (Run x dn rest)
    with tt have h: "held ?th = fold gain dn (base v (ph ?th) (shared ?th))"
      and b: "dn @ rest = body v x"
      by (simp_all add: tinv_def holds_def)
    from assms(3) Run have st:
      "shared ?th = 0 \<and> (x = Lock \<and> ph ?th = Unlocked \<or> x = Demote \<and> ph ?th = WriteLocked
         \<or> x = Promote \<and> ph ?th = WriteLockedDemoted \<or> x = Unlock \<and> ph ?th = WriteLocked)"
      by (auto simp: inc_ok_def is_run_def)
    show ?thesis
    proof (cases rest)
      case Nil
      with Run assms(2) show ?thesis by (simp add: step_def)
    next
      case (Cons c cs)
      have "\<exists>m'. exec c (lock s) = Done m'"
        using body_split [OF b] st f assms(4) unfolding h Cons
        by (auto simp: prim_defs)
      with Run Cons assms(2) show ?thesis by (auto simp: step_def)
    qed
  qed
qed

lemma free_steps:
  assumes "Inv v s" "t < length (threads s)" "inc_ok k (threads s ! t)"
    and "\<not> locked (w (lock s))"
    and "\<not> (act (threads s ! t) = Idle \<and> todo (threads s ! t) = [])"
  shows "\<exists>s'. step v t s = Moved s'"
proof -
  let ?th = "threads s ! t"
  from assms(1,2) have tt: "tinv v ?th" by (simp add: Inv_def)
  from assms(1,4) have "\<forall>i<length (threads s). \<not> has_w (held (threads s ! i))"
    by (auto simp: Inv_def consistent_def)
  with assms(2) have nw: "\<not> has_w (held ?th)" by simp
  show ?thesis
  proof (cases "act ?th")
    case Idle
    with assms(3,5) tt nw show ?thesis using assms(2)
      by (cases "ph ?th") (auto simp: step_def inc_ok_def tinv_def holds_def is_run_def)
  next
    case (Run x dn rest)
    with tt have h: "held ?th = fold gain dn (base v (ph ?th) (shared ?th))"
      and b: "dn @ rest = body v x"
      by (simp_all add: tinv_def holds_def)
    from assms(3) Run have st:
      "shared ?th = 0 \<and> (x = Lock \<and> ph ?th = Unlocked \<or> x = Demote \<and> ph ?th = WriteLocked
         \<or> x = Promote \<and> ph ?th = WriteLockedDemoted \<or> x = Unlock \<and> ph ?th = WriteLocked)"
      by (auto simp: inc_ok_def is_run_def)
    show ?thesis
    proof (cases rest)
      case Nil
      with Run assms(2) show ?thesis by (simp add: step_def)
    next
      case (Cons c cs)
      have "\<exists>m'. exec c (lock s) = Done m'"
        using body_split [OF b] st nw assms(4) unfolding h Cons
        by (auto simp: prim_defs)
      with Run Cons assms(2) show ?thesis by (auto simp: step_def)
    qed
  qed
qed

lemma incs_progress:
  assumes "CInv v (replicate n demotedIncrement) s" "\<not> finished s"
  shows "\<exists>t s'. step v t s = Moved s'"
proof -
  from assms(1) have I: "Inv v s" and len: "length (threads s) = n"
    and ro: "\<forall>t<n. inc_ok (state s) (threads s ! t)"
    by (simp_all add: CInv_def role_ok_def)
  show ?thesis
  proof (cases "\<exists>t<n. has_w (held (threads s ! t))")
    case True
    then obtain t where t: "t < n" "has_w (held (threads s ! t))" by blast
    with len have tl: "t < length (threads s)" by simp
    note fr = Inv_others_free [OF I tl t(2)]
    have "\<forall>u<length (threads s). u \<noteq> t \<longrightarrow> slots (held (threads s ! u)) = 0"
    proof (intro allI impI)
      fix u assume u: "u < length (threads s)" "u \<noteq> t"
      with fr(2) have "\<not> has_w (held (threads s ! u))" by simp
      moreover from I u(1) have "tinv v (threads s ! u)" by (simp add: Inv_def)
      moreover from ro u(1) len have "inc_ok (state s) (threads s ! u)" by simp
      ultimately show "slots (held (threads s ! u)) = 0" by (simp add: inc_free_slots)
    qed
    with holder_steps [OF I tl _ t(2)] ro t(1) show ?thesis by blast
  next
    case False
    with I len have nl: "\<not> locked (w (lock s))"
      by (simp add: Inv_def consistent_def)
    from assms(2) obtain t where t: "t < length (threads s)"
      "\<not> (act (threads s ! t) = Idle \<and> todo (threads s ! t) = [])"
      by (auto simp: finished_def list_all_length)
    with ro len have "inc_ok (state s) (threads s ! t)" by simp
    from free_steps [OF I t(1) this nl t(2)] show ?thesis by blast
  qed
qed

text \<open>
  Claim C9.  Let \<open>n\<close> threads run \<open>demotedIncrement\<close> on one lock and one shared
  variable, together with any number of threads that run reader programs.  Whatever the
  interleaving, when all threads have finished the shared variable equals \<open>n\<close>.
  With the \<open>n\<close> incrementing threads alone no interleaving has more than \<open>20 n\<close>
  steps, and as long as some thread has not finished, some thread can take a step: every
  interleaving can be continued to the end, and there the shared variable equals \<open>n\<close>.
\<close>

theorem demoted_increments_all_count:
  assumes "\<forall>p\<in>set rs. reader_only p"
    and "sched v ts (start (replicate n demotedIncrement @ rs)) = Moved s"
  shows "(finished s \<longrightarrow> state s = int n)
         \<and> (rs = [] \<longrightarrow>
              length ts \<le> 20 * n \<and> (finished s \<or> (\<exists>t s'. step v t s = Moved s')))"
proof -
  let ?ps = "replicate n demotedIncrement @ rs"
  from CInv_sched [OF CInv_start [OF assms(1)] assms(2)]
  have C: "CInv v ?ps s" and "tally s = tally (start ?ps)" by simp_all
  with tally_start [OF assms(1)] have ta: "tally s = int n" by simp
  have "state s = int n" if fin: "finished s"
  proof -
    have "tally s = state s"
      unfolding tally_def by (simp only: finished_no_pending [OF fin] of_nat_0 add_0_right)
    with ta show ?thesis by simp
  qed
  moreover have "length ts \<le> 20 * n \<and> (finished s \<or> (\<exists>t s'. step v t s = Moved s'))"
    if e: "rs = []"
  proof -
    from work_sched [OF assms(2)] e
    have "length ts \<le> total_work v (start (replicate n demotedIncrement))" by simp
    with work_start_incs [of v n] have "length ts \<le> 20 * n" by linarith
    moreover from C e have "CInv v (replicate n demotedIncrement) s" by simp
    then have "finished s \<or> (\<exists>t s'. step v t s = Moved s')"
      using incs_progress by blast
    ultimately show ?thesis by simp
  qed
  ultimately show ?thesis by blast
qed

theorem demoted_increments_all_count_witness:
  "reader_only [Call RLock, Read, Call RUnlock]
   \<and> sched Guarded (replicate 10 0 @ replicate 7 2 @ [1] @ replicate 10 0 @ replicate 19 1)
       (start (replicate 2 demotedIncrement @ [ [Call RLock, Read, Call RUnlock] ]))
     = Moved
         \<lparr>lock = fresh,
          threads =
            [\<lparr>ph = Unlocked, shared = 0, act = Idle, held = nothing, todo = [], old = 0\<rparr>,
             \<lparr>ph = Unlocked, shared = 0, act = Idle, held = nothing, todo = [], old = 1\<rparr>,
             \<lparr>ph = Unlocked, shared = 0, act = Idle, held = nothing, todo = [], old = 0\<rparr>],
          state = 2\<rparr>"
proof -
  let ?rs = "[ [Call RLock, Read, Call RUnlock] ]"
  let ?s = "\<lparr>lock = fresh,
          threads =
            [\<lparr>ph = Unlocked, shared = 0, act = Idle, held = nothing, todo = [], old = 0\<rparr>,
             \<lparr>ph = Unlocked, shared = 0, act = Idle, held = nothing, todo = [], old = 1\<rparr>,
             \<lparr>ph = Unlocked, shared = 0, act = Idle, held = nothing, todo = [], old = 0\<rparr>],
          state = 2\<rparr>"
  have rd: "\<forall>p\<in>set ?rs. reader_only p" by (simp add: reader_only_def)
  have run: "sched Guarded (replicate 10 0 @ replicate 7 2 @ [1] @ replicate 10 0 @ replicate 19 1)
               (start (replicate 2 demotedIncrement @ ?rs)) = Moved ?s"
    by code_simp
  have fin: "finished ?s" by (simp add: finished_def)
  have "reader_only [Call RLock, Read, Call RUnlock]" by (simp add: reader_only_def)
  with demoted_increments_all_count [OF rd run] fin run show ?thesis
    by simp
qed

section \<open>The two source files on legal runs\<close>

lemma on_gates_body: "on_gates (body Guarded x) = body Bare x"
  by (cases x) (simp_all add: on_gates_def)

lemma on_gates_Nil: "on_gates [] = []"
  by (simp add: on_gates_def)

lemma exec_erase:
  assumes "\<not> on_guard c" "exec c m = Done m'"
  shows "exec c (m\<lparr>g := k\<rparr>) = Done (m'\<lparr>g := k\<rparr>)"
  using assms by (cases c) (auto simp: prim_defs split: if_splits)

lemma exec_unerase:
  assumes "\<not> on_guard c" "exec c (m\<lparr>g := k\<rparr>) = Done mb"
  shows "\<exists>m'. exec c m = Done m' \<and> mb = m'\<lparr>g := k\<rparr>"
  using assms by (cases c) (auto simp: prim_defs split: if_splits)

lemma exec_guard_erase:
  assumes "on_guard c" "exec c m = Done m'"
  shows "m'\<lparr>g := k\<rparr> = m\<lparr>g := k\<rparr>"
  using assms by (cases c) (auto simp: prim_defs split: if_splits)

lemma gain_guard_erase:
  "on_guard c \<Longrightarrow> (gain c h)\<lparr>has_g := False\<rparr> = h\<lparr>has_g := False\<rparr>"
  by (cases c) simp_all

lemma gain_erase:
  "\<not> on_guard c \<Longrightarrow> (gain c h)\<lparr>has_g := False\<rparr> = gain c (h\<lparr>has_g := False\<rparr>)"
  by (cases c) simp_all

lemma erase_put: "erase (put s t th) = put (erase s) t (erase_thread th)"
  by (simp add: erase_def put_def map_update)

lemma erase_put_lock:
  "erase (put (s\<lparr>lock := m\<rparr>) t th)
   = put ((erase s)\<lparr>lock := m\<lparr>g := \<lparr>locked = False\<rparr>\<rparr>\<rparr>) t (erase_thread th)"
  by (simp add: erase_def put_def map_update)

lemma erase_put_state:
  "erase (put (s\<lparr>state := k\<rparr>) t th) = put ((erase s)\<lparr>state := k\<rparr>) t (erase_thread th)"
  by (simp add: erase_def put_def map_update)

lemma erase_same:
  assumes "t < length (threads s)" "erase_thread th = erase_thread (threads s ! t)"
    and "m\<lparr>g := \<lparr>locked = False\<rparr>\<rparr> = (lock s)\<lparr>g := \<lparr>locked = False\<rparr>\<rparr>"
  shows "erase (put (s\<lparr>lock := m\<rparr>) t th) = erase s"
proof -
  have "map erase_thread ((threads s)[t := th]) = map erase_thread (threads s)"
    using assms(1,2) by (simp add: map_update list_update_same_conv)
  with assms(3) show ?thesis
    by (simp add: erase_def put_def)
qed

lemma erase_nth [simp]:
  "t < length (threads s) \<Longrightarrow> threads (erase s) ! t = erase_thread (threads s ! t)"
  by (simp add: erase_def)

lemma erase_length [simp]: "length (threads (erase s)) = length (threads s)"
  by (simp add: erase_def)

lemma erase_lock [simp]: "lock (erase s) = (lock s)\<lparr>g := \<lparr>locked = False\<rparr>\<rparr>"
  by (simp add: erase_def)

lemma erase_state [simp]: "state (erase s) = state s"
  by (simp add: erase_def)

lemma erase_start: "erase (start ps) = start ps"
  by (simp add: erase_def start_def fresh_def erase_thread_def spawn_def nothing_def)

lemma forward_step:
  assumes "step Guarded t s = Moved s'"
  shows "(case next_call s t of
            Some c \<Rightarrow>
              if on_guard c then erase s' = erase s
              else step Bare t (erase s) = Moved (erase s') \<and> next_call (erase s) t = Some c
          | None \<Rightarrow> step Bare t (erase s) = Moved (erase s') \<and> next_call (erase s) t = None)"
  using assms
proof (cases rule: step_cases)
  case (s_enter x rest)
  then show ?thesis
    by (simp add: next_call_def step_def erase_put erase_thread_def on_gates_body on_gates_Nil)
next
  case (s_read rest)
  then show ?thesis
    by (simp add: next_call_def step_def erase_put erase_thread_def)
next
  case (s_write rest)
  then show ?thesis
    by (simp add: next_call_def step_def erase_put_state erase_thread_def)
next
  case (s_call x dn c cs m')
  show ?thesis
  proof (cases "on_guard c")
    case True
    have "erase s' = erase s"
      unfolding s_call(4)
      by (rule erase_same [OF s_call(1)])
         (simp_all add: erase_thread_def s_call(2) on_gates_def True gain_guard_erase
            exec_guard_erase [OF True s_call(3)])
    with True s_call(1,2) show ?thesis
      by (simp add: next_call_def)
  next
    case False
    from exec_erase [OF False s_call(3)]
    have "exec c ((lock s)\<lparr>g := \<lparr>locked = False\<rparr>\<rparr>) = Done (m'\<lparr>g := \<lparr>locked = False\<rparr>\<rparr>)" .
    with False s_call(1,2) show ?thesis
      unfolding s_call(4)
      by (simp add: next_call_def step_def erase_put_lock erase_thread_def on_gates_def
          gain_erase)
  qed
next
  case (s_return x dn)
  then show ?thesis
    by (simp add: next_call_def step_def erase_put erase_thread_def on_gates_def)
qed

lemma forward_sched:
  assumes "sched Guarded ts s = Moved s'"
  shows "\<exists>tb. sched Bare tb (erase s) = Moved (erase s')
              \<and> trace Bare tb (erase s) = on_gates_of (trace Guarded ts s)"
  using assms
proof (induction ts arbitrary: s)
  case Nil
  have "sched Bare [] (erase s) = Moved (erase s) \<and> trace Bare [] (erase s) = on_gates_of []"
    by (simp add: on_gates_of_def)
  with Nil show ?case by (metis sched.simps(1) move.inject(1) trace.simps(1))
next
  case (Cons t ts)
  from Cons.prems obtain s1 where st: "step Guarded t s = Moved s1"
    and re: "sched Guarded ts s1 = Moved s'"
    by (cases "step Guarded t s") simp_all
  from Cons.IH [OF re] obtain tb where tb: "sched Bare tb (erase s1) = Moved (erase s')"
    "trace Bare tb (erase s1) = on_gates_of (trace Guarded ts s1)"
    by blast
  note f = forward_step [OF st]
  show ?case
  proof (cases "next_call s t")
    case None
    with f have b: "step Bare t (erase s) = Moved (erase s1)" "next_call (erase s) t = None"
      by simp_all
    with tb st None have "sched Bare (t # tb) (erase s) = Moved (erase s')
        \<and> trace Bare (t # tb) (erase s) = on_gates_of (trace Guarded (t # ts) s)"
      by simp
    then show ?thesis by blast
  next
    case (Some c)
    show ?thesis
    proof (cases "on_guard c")
      case True
      with f Some have "erase s1 = erase s" by simp
      with tb st Some True have "sched Bare tb (erase s) = Moved (erase s')
        \<and> trace Bare tb (erase s) = on_gates_of (trace Guarded (t # ts) s)"
        by (simp add: on_gates_of_def)
      then show ?thesis by blast
    next
      case False
      with f Some have b: "step Bare t (erase s) = Moved (erase s1)"
        "next_call (erase s) t = Some c"
        by simp_all
      with tb st Some False have "sched Bare (t # tb) (erase s) = Moved (erase s')
        \<and> trace Bare (t # tb) (erase s) = on_gates_of (trace Guarded (t # ts) s)"
        by (simp add: on_gates_of_def)
      then show ?thesis by blast
    qed
  qed
qed

lemma sched_append:
  "sched v a s = Moved s1 \<Longrightarrow> sched v (a @ b) s = sched v b s1"
  by (induction a arbitrary: s) (auto split: move.splits)

lemma trace_append:
  "sched v a s = Moved s1 \<Longrightarrow> trace v (a @ b) s = trace v a s @ trace v b s1"
  by (induction a arbitrary: s) (auto split: move.splits option.splits)

lemma need_no_fatal:
  assumes "fits m h ow ox og n" "need c h"
  shows "exec c m \<noteq> Fatal e"
  using assms unfolding fits_def by (cases c) (auto simp: prim_defs)

lemma no_crash:
  assumes "Inv v s"
  shows "step v t s \<noteq> Crashed e"
proof
  assume cr: "step v t s = Crashed e"
  then have tl: "t < length (threads s)"
    by (auto simp: step_def split: if_splits)
  from cr tl obtain x dn c cs where a: "act (threads s ! t) = Run x dn (c # cs)"
    and f: "exec c (lock s) = Fatal e"
    by (auto simp: step_def split: activity.splits list.splits instr.splits outcome.splits
        if_splits)
  from assms tl have "tinv v (threads s ! t)" by (simp add: Inv_def)
  from need_next [OF this a] have "need c (held (threads s ! t))" .
  from need_no_fatal [OF Inv_fits [OF assms tl] this] f show False by blast
qed

lemma guard_call_returns:
  assumes "Inv v s" "t < length (threads s)" "act (threads s ! t) = Run x dn (c # cs)"
    and "on_guard c"
  shows "\<exists>m'. exec c (lock s) = Done m'" and "cs = []"
proof -
  let ?th = "threads s ! t"
  from assms(1,2) have tt: "tinv v ?th" by (simp add: Inv_def)
  with assms(3) have h: "held ?th = fold gain dn (base v (ph ?th) (shared ?th))"
    and b: "dn @ c # cs = body v x" and p: "pre x (ph ?th) (shared ?th)"
    by (simp_all add: tinv_def holds_def)
  from body_split [OF b] assms(4) have sh:
    "(x = Demote \<and> dn = [R_Unlock, R_RLock] \<and> c = G_Lock \<and> cs = [])
     \<or> (x = Promote \<and> dn = [R_RUnlock, R_Lock] \<and> c = G_Unlock \<and> cs = [])"
    by auto
  then show "cs = []" by blast
  from b sh have vg: "v = Guarded" by (cases v) auto
  note f = Inv_fits [OF assms(1,2)]
  from sh show "\<exists>m'. exec c (lock s) = Done m'"
  proof
    assume d: "x = Demote \<and> dn = [R_Unlock, R_RLock] \<and> c = G_Lock \<and> cs = []"
    with p have "ph ?th = WriteLocked" by simp
    with d h have "has_w (held ?th)" "\<not> has_g (held ?th)" by simp_all
    with f have "\<not> locked (g (lock s))" unfolding fits_def by blast
    with d show ?thesis by (simp add: prim_defs)
  next
    assume d: "x = Promote \<and> dn = [R_RUnlock, R_Lock] \<and> c = G_Unlock \<and> cs = []"
    with p have "ph ?th = WriteLockedDemoted" by simp
    with d h vg have "has_g (held ?th)" by simp
    with f have "locked (g (lock s))" unfolding fits_def by blast
    with d show ?thesis by (simp add: prim_defs)
  qed
qed

lemma enabled_back:
  assumes "step Bare t (erase s) = Moved b"
    and "\<forall>c. next_call s t = Some c \<longrightarrow> \<not> on_guard c"
  shows "\<exists>s'. step Guarded t s = Moved s'"
proof -
  from assms(1) have tl: "t < length (threads s)"
    by (auto simp: step_def split: if_splits)
  show ?thesis
  proof (cases "act (threads s ! t)")
    case Idle
    with assms(1) tl show ?thesis
      by (auto simp: step_def erase_thread_def split: list.splits instr.splits if_splits)
  next
    case (Run x dn rest)
    show ?thesis
    proof (cases rest)
      case Nil
      with Run tl show ?thesis by (simp add: step_def)
    next
      case (Cons c cs)
      with Run tl assms(2) have ng: "\<not> on_guard c"
        by (simp add: next_call_def)
      with assms(1) tl Run Cons obtain mb where
        "exec c ((lock s)\<lparr>g := \<lparr>locked = False\<rparr>\<rparr>) = Done mb"
        by (auto simp: step_def erase_thread_def on_gates_def split: outcome.splits)
      from exec_unerase [OF ng this] Run Cons tl show ?thesis
        by (auto simp: step_def)
    qed
  qed
qed

lemma one_trace:
  "step v t s = Moved s' \<Longrightarrow>
   trace v [t] s = (case next_call s t of Some c \<Rightarrow> [(t, c)] | None \<Rightarrow> [])"
  by (simp split: option.splits)

lemma back_visible:
  assumes "step Bare t (erase s) = Moved b"
    and "\<forall>c. next_call s t = Some c \<longrightarrow> \<not> on_guard c"
  shows "\<exists>s'. sched Guarded [t] s = Moved s' \<and> erase s' = b
              \<and> on_gates_of (trace Guarded [t] s) = trace Bare [t] (erase s)"
proof -
  from enabled_back [OF assms] obtain s' where st: "step Guarded t s = Moved s'" by blast
  note f = forward_step [OF st]
  have "step Bare t (erase s) = Moved (erase s') \<and> next_call (erase s) t = next_call s t"
    using f assms(2) by (cases "next_call s t") simp_all
  with assms(1) have e: "erase s' = b" and n: "next_call (erase s) t = next_call s t"
    by simp_all
  have "on_gates_of (trace Guarded [t] s) = trace Bare [t] (erase s)"
    unfolding one_trace [OF st] one_trace [OF assms(1)] n using assms(2)
    by (cases "next_call s t") (simp_all add: on_gates_of_def)
  with st e show ?thesis by simp
qed

lemma back_step:
  assumes "Inv Guarded s" "step Bare t (erase s) = Moved b"
  shows "\<exists>us s'. sched Guarded us s = Moved s' \<and> erase s' = b
              \<and> on_gates_of (trace Guarded us s) = trace Bare [t] (erase s)"
proof (cases "\<forall>c. next_call s t = Some c \<longrightarrow> \<not> on_guard c")
  case True
  from back_visible [OF assms(2) True] show ?thesis by blast
next
  case False
  then obtain c where nc: "next_call s t = Some c" and og: "on_guard c" by blast
  from nc have tl: "t < length (threads s)"
    by (simp add: next_call_def split: if_splits)
  from nc tl obtain x dn cs where a: "act (threads s ! t) = Run x dn (c # cs)"
    by (auto simp: next_call_def split: activity.splits list.splits)
  from guard_call_returns [OF assms(1) tl a og] obtain m' where
    ex: "exec c (lock s) = Done m'" and cs: "cs = []"
    by blast
  let ?s1 = "put (s\<lparr>lock := m'\<rparr>) t
               ((threads s ! t)\<lparr>act := Run x (dn @ [c]) cs,
                                  held := gain c (held (threads s ! t))\<rparr>)"
  have st: "step Guarded t s = Moved ?s1"
    using tl a ex by (simp add: step_def)
  from forward_step [OF st] nc og have e1: "erase ?s1 = erase s" by simp
  have n1: "\<forall>c'. next_call ?s1 t = Some c' \<longrightarrow> \<not> on_guard c'"
    using tl cs by (simp add: next_call_def put_def)
  from assms(2) e1 have b1: "step Bare t (erase ?s1) = Moved b" by simp
  from back_visible [OF b1 n1] obtain s' where
    s': "sched Guarded [t] ?s1 = Moved s'" "erase s' = b"
    "on_gates_of (trace Guarded [t] ?s1) = trace Bare [t] (erase ?s1)"
    by blast
  have "sched Guarded [t, t] s = Moved s'"
    using st s'(1) by simp
  moreover have "on_gates_of (trace Guarded [t, t] s) = trace Bare [t] (erase s)"
    using st s'(3) nc og e1 by (simp add: on_gates_of_def)
  ultimately show ?thesis using s'(2) by blast
qed

lemma backward_sched:
  assumes "Inv Guarded s" "sched Bare tb (erase s) = Moved b"
  shows "\<exists>ts s'. sched Guarded ts s = Moved s' \<and> erase s' = b
              \<and> on_gates_of (trace Guarded ts s) = trace Bare tb (erase s)"
  using assms
proof (induction tb arbitrary: s)
  case Nil
  have "sched Guarded [] s = Moved s \<and> on_gates_of (trace Guarded [] s) = trace Bare [] (erase s)"
    by (simp add: on_gates_of_def)
  with Nil.prems(2) show ?case by (metis sched.simps(1) move.inject(1))
next
  case (Cons t tb)
  from Cons.prems(2) obtain b1 where st: "step Bare t (erase s) = Moved b1"
    and re: "sched Bare tb b1 = Moved b"
    by (cases "step Bare t (erase s)") simp_all
  from back_step [OF Cons.prems(1) st] obtain us s1 where
    u: "sched Guarded us s = Moved s1" "erase s1 = b1"
    "on_gates_of (trace Guarded us s) = trace Bare [t] (erase s)"
    by blast
  from Cons.prems(1) u(1) have I1: "Inv Guarded s1" by (rule Inv_sched)
  from re u(2) have "sched Bare tb (erase s1) = Moved b" by simp
  from Cons.IH [OF I1 this] obtain ts s' where
    t: "sched Guarded ts s1 = Moved s'" "erase s' = b"
    "on_gates_of (trace Guarded ts s1) = trace Bare tb (erase s1)"
    by blast
  have "sched Guarded (us @ ts) s = Moved s'"
    using sched_append [OF u(1)] t(1) by simp
  moreover have "on_gates_of (trace Guarded (us @ ts) s) = trace Bare (t # tb) (erase s)"
  proof -
    have "trace Bare (t # tb) (erase s) = trace Bare [t] (erase s) @ trace Bare tb b1"
      using st by (simp split: option.splits)
    with trace_append [OF u(1), of ts] u(2,3) t(3) show ?thesis
      by (simp add: on_gates_of_def)
  qed
  ultimately show ?case using t(2) by blast
qed

text \<open>
  Claim C10.  On legal call sequences the two source files do the same on the write gate
  and the read/write gate, and neither is stopped by a fatal error.  For one caller on a
  fresh lock: the guarded source file performs the same calls on \<open>w\<close> and \<open>r\<close>, in the
  same order, as \<^verbatim>\<open>motex.go\<close>, and the sequence either completes in both, with the
  same \<open>w\<close> and \<open>r\<close>, or blocks in both at the same call.  For threads that make legal
  calls only: every run of the guarded source file is, with the calls on \<open>g\<close> left out,
  a run of \<^verbatim>\<open>motex.go\<close> with the same calls on \<open>w\<close> and \<open>r\<close> by the same threads in
  the same order; every run of \<^verbatim>\<open>motex.go\<close> is obtained in this way from a run of the
  guarded source file; and in no reachable state of either is the next step of a thread
  a fatal error.
\<close>

theorem guard_is_invisible_on_legal_runs:
  "(legal xs \<longrightarrow>
      on_gates (fst (play Guarded xs)) = fst (play Bare xs)
      \<and> agree (snd (play Bare xs)) (snd (play Guarded xs)))
   \<and> (sched Guarded ts (start ps) = Moved s \<longrightarrow>
        (\<exists>tb. sched Bare tb (start ps) = Moved (erase s)
               \<and> trace Bare tb (start ps) = on_gates_of (trace Guarded ts (start ps))))
   \<and> (sched Bare tb (start ps) = Moved b \<longrightarrow>
        (\<exists>ts s. sched Guarded ts (start ps) = Moved s \<and> erase s = b
               \<and> on_gates_of (trace Guarded ts (start ps)) = trace Bare tb (start ps)))
   \<and> (sched v ts (start ps) = Moved s \<longrightarrow> (\<forall>t e. step v t s \<noteq> Crashed e))"
proof (intro conjI impI)
  assume "legal xs"
  then show "on_gates (fst (play Guarded xs)) = fst (play Bare xs)"
    and "agree (snd (play Bare xs)) (snd (play Guarded xs))"
    using play_from_agree [of Unlocked 0 fresh fresh xs 0]
    by (simp_all add: play_def legal_def fresh_def)
next
  assume "sched Guarded ts (start ps) = Moved s"
  from forward_sched [OF this]
  show "\<exists>tb. sched Bare tb (start ps) = Moved (erase s)
               \<and> trace Bare tb (start ps) = on_gates_of (trace Guarded ts (start ps))"
    by (simp add: erase_start)
next
  assume "sched Bare tb (start ps) = Moved b"
  then have "sched Bare tb (erase (start ps)) = Moved b" by (simp add: erase_start)
  from backward_sched [OF Inv_start this]
  show "\<exists>ts s. sched Guarded ts (start ps) = Moved s \<and> erase s = b
               \<and> on_gates_of (trace Guarded ts (start ps)) = trace Bare tb (start ps)"
    by (simp add: erase_start)
next
  assume "sched v ts (start ps) = Moved s"
  then have "Inv v s" by (rule Inv_reached)
  then show "\<forall>t e. step v t s \<noteq> Crashed e"
    by (simp add: no_crash)
qed

theorem guard_is_invisible_on_legal_runs_witness:
  "legal [Lock, Demote, RLock, RUnlock, Promote, Unlock]
   \<and> fst (play Guarded [Lock, Demote, RLock, RUnlock, Promote, Unlock])
     = [W_Lock, R_Lock, R_Unlock, R_RLock, G_Lock, R_RLock, R_RUnlock, R_RUnlock, R_Lock,
        G_Unlock, R_Unlock, W_Unlock]
   \<and> fst (play Bare [Lock, Demote, RLock, RUnlock, Promote, Unlock])
     = [W_Lock, R_Lock, R_Unlock, R_RLock, R_RLock, R_RUnlock, R_RUnlock, R_Lock,
        R_Unlock, W_Unlock]
   \<and> trace Guarded (replicate 9 0 @ replicate 3 1)
       (start [ [Call Lock, Call Demote, Call Promote, Call Unlock], [Call RLock, Call RUnlock] ])
     = [(0, W_Lock), (0, R_Lock), (0, R_Unlock), (0, R_RLock), (0, G_Lock), (1, R_RLock)]
   \<and> trace Bare (replicate 8 0 @ replicate 3 1)
       (start [ [Call Lock, Call Demote, Call Promote, Call Unlock], [Call RLock, Call RUnlock] ])
     = [(0, W_Lock), (0, R_Lock), (0, R_Unlock), (0, R_RLock), (1, R_RLock)]
   \<and> (\<exists>tb. sched Bare tb
             (start [ [Call Lock, Call Demote, Call Promote, Call Unlock],
                     [Call RLock, Call RUnlock] ])
           = Moved
               \<lparr>lock = \<lparr>w = \<lparr>locked = True\<rparr>, r = \<lparr>writer = False, readers = 2\<rparr>,
                         g = \<lparr>locked = False\<rparr>\<rparr>,
                threads =
                  [\<lparr>ph = WriteLockedDemoted, shared = 0, act = Idle,
                     held = \<lparr>has_w = True, has_x = False, slots = 1, has_g = False\<rparr>,
                     todo = [Call Promote, Call Unlock], old = 0\<rparr>,
                   \<lparr>ph = Unlocked, shared = 1, act = Idle,
                     held = \<lparr>has_w = False, has_x = False, slots = 1, has_g = False\<rparr>,
                     todo = [Call RUnlock], old = 0\<rparr>],
                state = 0\<rparr>)"
proof -
  let ?xs = "[Lock, Demote, RLock, RUnlock, Promote, Unlock]"
  let ?ps = "[ [Call Lock, Call Demote, Call Promote, Call Unlock], [Call RLock, Call RUnlock] ]"
  let ?ts = "replicate 9 0 @ replicate 3 1"
  let ?tb = "replicate 8 0 @ replicate 3 1"
  let ?s = "\<lparr>lock = \<lparr>w = \<lparr>locked = True\<rparr>, r = \<lparr>writer = False, readers = 2\<rparr>,
                    g = \<lparr>locked = True\<rparr>\<rparr>,
           threads =
             [\<lparr>ph = WriteLockedDemoted, shared = 0, act = Idle,
                held = \<lparr>has_w = True, has_x = False, slots = 1, has_g = True\<rparr>,
                todo = [Call Promote, Call Unlock], old = 0\<rparr>,
              \<lparr>ph = Unlocked, shared = 1, act = Idle,
                held = \<lparr>has_w = False, has_x = False, slots = 1, has_g = False\<rparr>,
                todo = [Call RUnlock], old = 0\<rparr>],
           state = 0\<rparr>"
  let ?b = "\<lparr>lock = \<lparr>w = \<lparr>locked = True\<rparr>, r = \<lparr>writer = False, readers = 2\<rparr>,
                    g = \<lparr>locked = False\<rparr>\<rparr>,
           threads =
             [\<lparr>ph = WriteLockedDemoted, shared = 0, act = Idle,
                held = \<lparr>has_w = True, has_x = False, slots = 1, has_g = False\<rparr>,
                todo = [Call Promote, Call Unlock], old = 0\<rparr>,
              \<lparr>ph = Unlocked, shared = 1, act = Idle,
                held = \<lparr>has_w = False, has_x = False, slots = 1, has_g = False\<rparr>,
                todo = [Call RUnlock], old = 0\<rparr>],
           state = 0\<rparr>"
  have lg: "legal ?xs" by (simp add: legal_def)
  have pg: "fst (play Guarded ?xs)
     = [W_Lock, R_Lock, R_Unlock, R_RLock, G_Lock, R_RLock, R_RUnlock, R_RUnlock, R_Lock,
        G_Unlock, R_Unlock, W_Unlock]"
    by (simp add: play_def fresh_def prim_defs)
  have pb: "fst (play Bare ?xs)
     = [W_Lock, R_Lock, R_Unlock, R_RLock, R_RLock, R_RUnlock, R_RUnlock, R_Lock,
        R_Unlock, W_Unlock]"
    by (simp add: play_def fresh_def prim_defs)
  have rg: "sched Guarded ?ts (start ?ps) = Moved ?s" by code_simp
  have rb: "sched Bare ?tb (start ?ps) = Moved ?b" by code_simp
  have tg: "trace Guarded ?ts (start ?ps)
     = [(0, W_Lock), (0, R_Lock), (0, R_Unlock), (0, R_RLock), (0, G_Lock), (1, R_RLock)]"
    by code_simp
  have tb: "trace Bare ?tb (start ?ps)
     = [(0, W_Lock), (0, R_Lock), (0, R_Unlock), (0, R_RLock), (1, R_RLock)]"
    by code_simp
  have es: "erase ?s = ?b"
    by (simp add: erase_def erase_thread_def)
  from guard_is_invisible_on_legal_runs [of ?xs ?ts ?ps ?s ?tb ?b Guarded] lg rg rb
  have "\<exists>tb. sched Bare tb (start ?ps) = Moved (erase ?s)" by blast
  with es lg pg pb tg tb show ?thesis by simp
qed

end
